theory Spec2Isabelle
  imports
    Main
    "HOL-Library.Char_ord"
    "HOL-Library.List_Lexorder"
    "HOL-Library.Multiset"
    "HOL-Library.AList"
begin

section \<open>JavaScript values used by the word service\<close>

subsection \<open>Strings\<close>

text \<open>
  A JavaScript string is a sequence of UTF-16 code units. The model is \<open>string\<close>
  (a \<open>char list\<close>), that is the strings all of whose code units are below 256
  (ASCII and Latin-1). On these strings \<open>toLowerCase\<close> works unit by unit, the
  default order of \<open>Array.prototype.sort\<close> is the lexicographic order of the code
  units, a prefix first (the \<open>linorder\<close> of \<open>string\<close> here), and \<open>length\<close>
  counts code units.
\<close>

definition is_upper_unit :: "char \<Rightarrow> bool" where
  "is_upper_unit c =
     (let n = (of_char c :: nat)
      in (65 \<le> n \<and> n \<le> 90) \<or> (192 \<le> n \<and> n \<le> 222 \<and> n \<noteq> 215))"

definition lower_unit :: "char \<Rightarrow> char" where
  "lower_unit c = (if is_upper_unit c then char_of (of_char c + (32::nat)) else c)"

definition toLowerCase :: "string \<Rightarrow> string" where
  "toLowerCase s = map lower_unit s"

text \<open>\<open>xs.join(sep)\<close>\<close>

fun join :: "string \<Rightarrow> string list \<Rightarrow> string" where
  "join sep [] = []"
| "join sep [x] = x"
| "join sep (x # y # ys) = x @ sep @ join sep (y # ys)"

text \<open>The class \<open>\w\<close> of a regular expression without the \<open>u\<close> flag: \<open>[A-Za-z0-9_]\<close>.\<close>

definition is_word_unit :: "char \<Rightarrow> bool" where
  "is_word_unit c =
     (let n = (of_char c :: nat)
      in (48 \<le> n \<and> n \<le> 57) \<or> (65 \<le> n \<and> n \<le> 90) \<or> n = 95 \<or> (97 \<le> n \<and> n \<le> 122))"

text \<open>\<open>/^\w+$/.test(word)\<close>\<close>

definition test_word :: "string \<Rightarrow> bool" where
  "test_word s = (s \<noteq> [] \<and> list_all is_word_unit s)"

text \<open>
  \<open>s.split(/\b/)\<close>: the string is cut at every interior position where exactly one
  of the two neighbouring units is a word unit; the empty string gives one empty piece.
\<close>

fun split_boundary :: "string \<Rightarrow> string list" where
  "split_boundary [] = [[]]"
| "split_boundary [c] = [[c]]"
| "split_boundary (c # d # cs) =
     (if is_word_unit c = is_word_unit d
      then (case split_boundary (d # cs) of
              seg # segs \<Rightarrow> (c # seg) # segs
            | [] \<Rightarrow> [[c]])
      else [c] # split_boundary (d # cs))"

subsection \<open>Plain objects used as dictionaries\<close>

text \<open>
  An object created by the literal \<open>{}\<close> is modelled by the list of its own
  enumerable properties, in creation order. It inherits from \<open>Object.prototype\<close>:
  reading a key that is not an own property but names a property of
  \<open>Object.prototype\<close> yields that inherited value (a function, or the prototype
  itself for \<open>__proto__\<close>), which is truthy and is not an array. Assigning an object
  to the key \<open>__proto__\<close> runs the inherited setter, which replaces the prototype and
  creates no own property.
\<close>

type_synonym 'a object = "(string \<times> 'a) list"

definition object_prototype_keys :: "string list" where
  "object_prototype_keys =
     [''constructor'', ''__defineGetter__'', ''__defineSetter__'', ''hasOwnProperty'',
      ''__lookupGetter__'', ''__lookupSetter__'', ''isPrototypeOf'',
      ''propertyIsEnumerable'', ''toString'', ''valueOf'', ''__proto__'',
      ''toLocaleString'']"

datatype 'a property = Own 'a | Inherited | Undefined

definition obj_get :: "'a object \<Rightarrow> string \<Rightarrow> 'a property" where
  "obj_get obj k =
     (case map_of obj k of
        Some v \<Rightarrow> Own v
      | None \<Rightarrow> if k \<in> set object_prototype_keys then Inherited else Undefined)"

definition obj_set :: "'a object \<Rightarrow> string \<Rightarrow> 'a \<Rightarrow> 'a object" where
  "obj_set obj k v = (if k = ''__proto__'' then obj else AList.update k v obj)"

text \<open>
  \<open>Object.entries\<close> and \<open>Object.keys\<close> list the own properties whose key is an array
  index (a canonical decimal numeral below \<open>2^32 - 1\<close>) first, in ascending numeric
  order, then the other keys in creation order.
\<close>

definition is_digit_unit :: "char \<Rightarrow> bool" where
  "is_digit_unit c = (let n = (of_char c :: nat) in 48 \<le> n \<and> n \<le> 57)"

definition digits_value :: "string \<Rightarrow> int" where
  "digits_value k = foldl (\<lambda>a c. 10 * a + (of_char c - 48)) 0 k"

definition is_array_index :: "string \<Rightarrow> bool" where
  "is_array_index k =
     (k \<noteq> [] \<and> list_all is_digit_unit k \<and> (k = ''0'' \<or> take 1 k \<noteq> ''0'')
      \<and> digits_value k < 4294967295)"

definition object_entries :: "'a object \<Rightarrow> (string \<times> 'a) list" where
  "object_entries obj =
     sort_key (\<lambda>p. digits_value (fst p)) (filter (\<lambda>p. is_array_index (fst p)) obj)
     @ filter (\<lambda>p. \<not> is_array_index (fst p)) obj"

definition object_keys :: "'a object \<Rightarrow> string list" where
  "object_keys obj = map fst (object_entries obj)"

section \<open>Data model\<close>

record WordIndex =
  articleId :: string
  word :: string
  positions :: "nat list"

record WordArticleCount =
  word :: string
  articleId :: string
  count :: nat

text \<open>One element of a \<open>findWords\<close> result: \<open>{ article_id, offsets }\<close>.\<close>

record hit =
  article_id :: string
  offsets :: "nat list"

text \<open>
  The values that travel through the cache as JSON: \<open>null\<close>, a \<open>findWords\<close> result
  (an object from word to hits) and a \<open>getMostCommonWordArticle\<close> result
  \<open>{ article_id, count }\<close>. Only \<open>null\<close> is falsy.
\<close>

datatype json = JNull | JFindWords "hit list object" | JMostCommon string nat

fun truthy :: "json \<Rightarrow> bool" where
  "truthy JNull = False"
| "truthy (JFindWords r) = True"
| "truthy (JMostCommon a c) = True"

text \<open>
  What a cache key holds: the text of a JSON value, or text that \<open>JSON.parse\<close>
  rejects.
\<close>

datatype stored = Unparseable | Value json

datatype error = RedisError | SyntaxError | PrismaError | TypeError

datatype redis_cmd = Get string | SetEX string json nat | Del string

datatype log_entry = Warn error string string | Err error string

text \<open>
  The state the service works on: the cache (key to stored text and time to live in
  seconds), the two tables, the log, the commands sent to Redis so far, and for each
  backend the outcomes of its coming calls (\<open>True\<close>: the call rejects; once the list is
  used up, calls succeed).
\<close>

record world =
  cache :: "string \<rightharpoonup> stored \<times> nat"
  wordIndex :: "WordIndex list"
  wordArticleCount :: "WordArticleCount list"
  logs :: "log_entry list"
  redis_calls :: "redis_cmd list"
  redis_faults :: "bool list"
  prisma_faults :: "bool list"

definition rejects :: "bool list \<Rightarrow> bool" where
  "rejects fs = (case fs of [] \<Rightarrow> False | f # _ \<Rightarrow> f)"

section \<open>Backends\<close>

subsection \<open>Redis\<close>

text \<open>
  Every command is recorded and takes the next outcome of \<open>redis_faults\<close>. \<open>DEL\<close>
  removes the key it is given; it does no pattern matching.
\<close>

definition redis_call :: "redis_cmd \<Rightarrow> world \<Rightarrow> world" where
  "redis_call c w =
     w\<lparr>redis_calls := redis_calls w @ [c], redis_faults := tl (redis_faults w)\<rparr>"

definition redis_get :: "string \<Rightarrow> world \<Rightarrow> (error + stored option) \<times> world" where
  "redis_get k w =
     (if rejects (redis_faults w) then (Inl RedisError, redis_call (Get k) w)
      else (Inr (map_option fst (cache w k)), redis_call (Get k) w))"

definition redis_set :: "string \<Rightarrow> json \<Rightarrow> nat \<Rightarrow> world \<Rightarrow> (error + unit) \<times> world" where
  "redis_set k v ttl w =
     (if rejects (redis_faults w) then (Inl RedisError, redis_call (SetEX k v ttl) w)
      else (Inr (), redis_call (SetEX k v ttl) (w\<lparr>cache := (cache w)(k \<mapsto> (Value v, ttl))\<rparr>)))"

definition redis_del :: "string \<Rightarrow> world \<Rightarrow> (error + unit) \<times> world" where
  "redis_del k w =
     (if rejects (redis_faults w) then (Inl RedisError, redis_call (Del k) w)
      else (Inr (), redis_call (Del k) (w\<lparr>cache := (cache w)(k := None)\<rparr>)))"

subsection \<open>Prisma\<close>

text \<open>
  Every query and every transaction takes the next outcome of \<open>prisma_faults\<close>; a
  rejected transaction leaves the tables as they were.
\<close>

definition prisma_call :: "world \<Rightarrow> world" where
  "prisma_call w = w\<lparr>prisma_faults := tl (prisma_faults w)\<rparr>"

text \<open>\<open>wordIndex.findMany({ where: { word: { in: words } } })\<close>\<close>

definition findMany :: "string list \<Rightarrow> world \<Rightarrow> (error + WordIndex list) \<times> world" where
  "findMany ws w =
     (if rejects (prisma_faults w) then (Inl PrismaError, prisma_call w)
      else (Inr (filter (\<lambda>r. WordIndex.word r \<in> set ws) (wordIndex w)), prisma_call w))"

text \<open>
  \<open>wordArticleCount.findFirst({ where: { word }, orderBy: { count: 'desc' } })\<close>: a
  row of the greatest count among the rows of the word; among equal counts the model
  takes the earliest row of the table.
\<close>

fun highest :: "WordArticleCount \<Rightarrow> WordArticleCount list \<Rightarrow> WordArticleCount" where
  "highest best [] = best"
| "highest best (r # rs) = highest (if count best < count r then r else best) rs"

definition top_count :: "WordArticleCount list \<Rightarrow> WordArticleCount option" where
  "top_count rs = (case rs of [] \<Rightarrow> None | r # rs' \<Rightarrow> Some (highest r rs'))"

definition findFirst :: "string \<Rightarrow> world \<Rightarrow> (error + WordArticleCount option) \<times> world" where
  "findFirst wd w =
     (if rejects (prisma_faults w) then (Inl PrismaError, prisma_call w)
      else (Inr (top_count (filter (\<lambda>r. WordArticleCount.word r = wd) (wordArticleCount w))),
            prisma_call w))"

text \<open>The body of the transaction of \<open>processArticle\<close>.\<close>

fun create_rows :: "string \<Rightarrow> (string \<times> nat list) list \<Rightarrow> world \<Rightarrow> world" where
  "create_rows aid [] w = w"
| "create_rows aid ((wd, ps) # es) w =
     create_rows aid es
       (w\<lparr>wordIndex := wordIndex w
             @ [\<lparr>WordIndex.articleId = aid, WordIndex.word = wd, positions = ps\<rparr>],
          wordArticleCount := wordArticleCount w
             @ [\<lparr>WordArticleCount.word = wd, WordArticleCount.articleId = aid,
                 count = length ps\<rparr>]\<rparr>)"

definition delete_rows :: "string \<Rightarrow> world \<Rightarrow> world" where
  "delete_rows aid w =
     w\<lparr>wordIndex := filter (\<lambda>r. WordIndex.articleId r \<noteq> aid) (wordIndex w),
       wordArticleCount :=
         filter (\<lambda>r. WordArticleCount.articleId r \<noteq> aid) (wordArticleCount w)\<rparr>"

definition transaction ::
  "string \<Rightarrow> nat list object \<Rightarrow> world \<Rightarrow> (error + unit) \<times> world" where
  "transaction aid wordPositions w =
     (if rejects (prisma_faults w) then (Inl PrismaError, prisma_call w)
      else (Inr (), create_rows aid (object_entries wordPositions)
                      (delete_rows aid (prisma_call w))))"

subsection \<open>p-retry\<close>

text \<open>
  \<open>pRetry(fn, { retries })\<close> runs \<open>fn\<close> and, while it rejects, runs it again, at most
  \<open>retries\<close> more times; it rejects with the last error. The delays between the
  attempts are not modelled.
\<close>

fun pRetry :: "nat \<Rightarrow> (world \<Rightarrow> (error + 'a) \<times> world) \<Rightarrow> world \<Rightarrow> (error + 'a) \<times> world" where
  "pRetry 0 fn w = fn w"
| "pRetry (Suc n) fn w =
     (case fn w of
        (Inr v, w') \<Rightarrow> (Inr v, w')
      | (Inl e, w') \<Rightarrow> pRetry n fn w')"

definition retries :: nat where
  "retries = 3"

section \<open>WordService\<close>

definition log_entry :: "log_entry \<Rightarrow> world \<Rightarrow> world" where
  "log_entry l w = w\<lparr>logs := logs w @ [l]\<rparr>"

definition get_and_parse :: "string \<Rightarrow> world \<Rightarrow> (error + json) \<times> world" where
  "get_and_parse cacheKey w =
     (case redis_get cacheKey w of
        (Inl e, w') \<Rightarrow> (Inl e, w')
      | (Inr None, w') \<Rightarrow> (Inr JNull, w')
      | (Inr (Some Unparseable), w') \<Rightarrow> (Inl SyntaxError, w')
      | (Inr (Some (Value v)), w') \<Rightarrow> (Inr v, w'))"

definition getCachedResult :: "string \<Rightarrow> world \<Rightarrow> json \<times> world" where
  "getCachedResult cacheKey w =
     (case pRetry retries (get_and_parse cacheKey) w of
        (Inr cached, w') \<Rightarrow> (cached, w')
      | (Inl e, w') \<Rightarrow>
          (JNull, log_entry (Warn e cacheKey ''Failed to get cached result after retries'') w'))"

definition setCachedResult :: "string \<Rightarrow> json \<Rightarrow> world \<Rightarrow> world" where
  "setCachedResult cacheKey data w =
     (case pRetry retries (redis_set cacheKey data 600) w of
        (Inr u, w') \<Rightarrow> w'
      | (Inl e, w') \<Rightarrow>
          log_entry (Warn e cacheKey ''Failed to set cached result after retries'') w')"

subsection \<open>findWords\<close>

text \<open>The cache key: \<^verbatim>\<open>`find-words:${words.sort().join(',')}`\<close>\<close>

definition findWords_cacheKey :: "string list \<Rightarrow> string" where
  "findWords_cacheKey ws = ''find-words:'' @ join '','' (sort ws)"

definition to_hit :: "WordIndex \<Rightarrow> hit" where
  "to_hit i = \<lparr>article_id = WordIndex.articleId i, offsets = positions i\<rparr>"

fun format_results ::
  "WordIndex list \<Rightarrow> string list \<Rightarrow> hit list object \<Rightarrow> hit list object" where
  "format_results wordIndexes [] results = results"
| "format_results wordIndexes (wd # ws) results =
     format_results wordIndexes ws
       (obj_set results wd
          (map to_hit (filter (\<lambda>i. WordIndex.word i = wd) wordIndexes)))"

text \<open>
  The result is the outcome of the call, the world after it, and the caller's array
  after it: \<open>words.sort()\<close>, inside the template of the cache key, sorts the
  argument in place, before anything else.
\<close>

definition findWords :: "string list \<Rightarrow> world \<Rightarrow> (error + json) \<times> world \<times> string list" where
  "findWords words0 w =
     (let cacheKey = findWords_cacheKey words0;
          words = sort words0
      in (case getCachedResult cacheKey w of
            (cached, w1) \<Rightarrow>
              (if truthy cached then (Inr cached, w1, words)
               else
                 (let normalizedWords = map toLowerCase words
                  in (case pRetry retries (findMany normalizedWords) w1 of
                        (Inl e, w2) \<Rightarrow>
                          (Inl e, log_entry (Err e ''Error in findWords'') w2, words)
                      | (Inr wordIndexes, w2) \<Rightarrow>
                          (let results = format_results wordIndexes normalizedWords []
                           in (Inr (JFindWords results),
                               setCachedResult cacheKey (JFindWords results) w2,
                               words)))))))"

subsection \<open>getMostCommonWordArticle\<close>

definition mostCommon_cacheKey :: "string \<Rightarrow> string" where
  "mostCommon_cacheKey wd = ''most-common-word:'' @ toLowerCase wd"

definition getMostCommonWordArticle :: "string \<Rightarrow> world \<Rightarrow> (error + json) \<times> world" where
  "getMostCommonWordArticle wd w =
     (let cacheKey = mostCommon_cacheKey wd
      in (case getCachedResult cacheKey w of
            (cached, w1) \<Rightarrow>
              (if truthy cached then (Inr cached, w1)
               else
                 (case pRetry retries (findFirst (toLowerCase wd)) w1 of
                    (Inl e, w2) \<Rightarrow>
                      (Inl e, log_entry (Err e ''Error in getMostCommonWordArticle'') w2)
                  | (Inr None, w2) \<Rightarrow> (Inr JNull, w2)
                  | (Inr (Some mostCommon), w2) \<Rightarrow>
                      (let result = JMostCommon (WordArticleCount.articleId mostCommon)
                                                (count mostCommon)
                       in (Inr result, setCachedResult cacheKey result w2))))))"

subsection \<open>processArticle\<close>

text \<open>
  The loop over the pieces of the content. \<open>wordPositions[word]\<close> is read through
  the prototype chain: for an inherited key the test \<open>!wordPositions[word]\<close> is false,
  no array is stored, and the call of \<open>push\<close> on the inherited value raises a
  \<open>TypeError\<close>.
\<close>

fun index_words ::
  "string list \<Rightarrow> nat list object \<Rightarrow> nat \<Rightarrow> error + nat list object" where
  "index_words [] wordPositions position = Inr wordPositions"
| "index_words (wd # ws) wordPositions position =
     (if test_word wd then
        (let wp = (if obj_get wordPositions wd = Undefined
                   then obj_set wordPositions wd [] else wordPositions)
         in case obj_get wp wd of
              Own ps \<Rightarrow> index_words ws (obj_set wp wd (ps @ [position])) (position + length wd)
            | Inherited \<Rightarrow> Inl TypeError
            | Undefined \<Rightarrow> Inl TypeError)
      else index_words ws wordPositions (position + length wd))"

definition word_positions :: "string \<Rightarrow> error + nat list object" where
  "word_positions content = index_words (split_boundary (toLowerCase content)) [] 0"

text \<open>
  \<open>Promise.allSettled\<close> over the \<open>del\<close> calls: each is sent, none of their outcomes
  is looked at.
\<close>

fun del_all :: "string list \<Rightarrow> world \<Rightarrow> world" where
  "del_all [] w = w"
| "del_all (k # ks) w = del_all ks (snd (redis_del k w))"

definition invalidate :: "nat list object \<Rightarrow> world \<Rightarrow> world" where
  "invalidate wordPositions w =
     del_all (''top-words:*''
              # map (\<lambda>wd. ''most-common-word:'' @ wd) (object_keys wordPositions)) w"

definition processArticle :: "string \<Rightarrow> string \<Rightarrow> world \<Rightarrow> (error + unit) \<times> world" where
  "processArticle aid content w =
     (case word_positions content of
        Inl e \<Rightarrow> (Inl e, log_entry (Err e ''Error in processArticle'') w)
      | Inr wordPositions \<Rightarrow>
          (case pRetry retries (transaction aid wordPositions) w of
             (Inl e, w1) \<Rightarrow> (Inl e, log_entry (Err e ''Error in processArticle'') w1)
           | (Inr u, w1) \<Rightarrow> (Inr (), invalidate wordPositions w1)))"

section \<open>Notions used to state the properties\<close>

text \<open>The Redis commands sent between the world \<open>w\<close> and the later world \<open>w'\<close>.\<close>

definition issued :: "world \<Rightarrow> world \<Rightarrow> redis_cmd list" where
  "issued w w' = drop (length (redis_calls w)) (redis_calls w')"

text \<open>A world with an empty cache, empty tables and backends that never reject.\<close>

definition empty_world :: world where
  "empty_world =
     \<lparr>cache = Map.empty, wordIndex = [], wordArticleCount = [], logs = [],
      redis_calls = [], redis_faults = [], prisma_faults = []\<rparr>"

text \<open>The rows that the transaction of \<open>processArticle\<close> creates for one entry.\<close>

definition index_row :: "string \<Rightarrow> string \<times> nat list \<Rightarrow> WordIndex" where
  "index_row aid e = \<lparr>WordIndex.articleId = aid, WordIndex.word = fst e, positions = snd e\<rparr>"

definition count_row :: "string \<Rightarrow> string \<times> nat list \<Rightarrow> WordArticleCount" where
  "count_row aid e = \<lparr>WordArticleCount.word = fst e, WordArticleCount.articleId = aid, count = length (snd e)\<rparr>"

text \<open>
  A cache miss: the key is absent, or what it holds does not parse, or it parses to a
  falsy value.
\<close>

definition cache_miss :: "string \<Rightarrow> world \<Rightarrow> bool" where
  "cache_miss k w = (case cache w k of Some (Value v, t) \<Rightarrow> \<not> truthy v | _ \<Rightarrow> True)"

text \<open>
  Worlds used to run the service on concrete inputs: two indexed articles and a store
  that rejects twice before it answers; the same with Redis rejecting four calls; the
  same with the store rejecting four calls; the same with two cached entries.
\<close>

definition indexed_world :: world where
  "indexed_world =
     \<lparr>cache = Map.empty,
      wordIndex =
        [\<lparr>WordIndex.articleId = ''1'', WordIndex.word = ''hello'', positions = [0, 13]\<rparr>,
         \<lparr>WordIndex.articleId = ''1'', WordIndex.word = ''world'', positions = [6]\<rparr>,
         \<lparr>WordIndex.articleId = ''2'', WordIndex.word = ''hello'', positions = [0, 6, 12]\<rparr>],
      wordArticleCount =
        [\<lparr>WordArticleCount.word = ''hello'', WordArticleCount.articleId = ''1'', count = 2\<rparr>,
         \<lparr>WordArticleCount.word = ''world'', WordArticleCount.articleId = ''1'', count = 1\<rparr>,
         \<lparr>WordArticleCount.word = ''hello'', WordArticleCount.articleId = ''2'', count = 3\<rparr>],
      logs = [], redis_calls = [], redis_faults = [], prisma_faults = [True, True]\<rparr>"

definition cache_down_world :: world where
  "cache_down_world = indexed_world\<lparr>redis_faults := [True, True, True, True]\<rparr>"

definition store_down_world :: world where
  "store_down_world = indexed_world\<lparr>prisma_faults := [True, True, True, True]\<rparr>"

definition stale_world :: world where
  "stale_world =
     indexed_world
       \<lparr>cache := [''top-words:10'' \<mapsto> (Value (JFindWords []), 600),
                  ''most-common-word:hello'' \<mapsto> (Value (JMostCommon ''2'' 3), 600)]\<rparr>"

subsection \<open>The tokenizer and the aggregator in the words of the specification\<close>

text \<open>
  Sections 4.1 and 4.2 of the specification: a word token is a maximal run of
  word-constituent characters (letters, digits, underscore), lowercased, with the
  offset of its first character in the original text, counted from 0; everything
  else is a separator. The positional map sends a word to the offsets of its tokens,
  in the order of the text, and has no entry for a word without tokens. The letters
  are the letters among the code units below 256: \<open>A\<close> to \<open>Z\<close>, \<open>a\<close> to \<open>z\<close>, and
  the letters of Latin-1 (170, 181, 186, 192 to 214, 216 to 246, 248 to 255). These
  definitions are the yardstick for \<open>word_positions\<close>; the service does not use
  them.
\<close>

definition is_letter :: "char \<Rightarrow> bool" where
  "is_letter c =
     (let n = (of_char c :: nat)
      in (65 \<le> n \<and> n \<le> 90) \<or> (97 \<le> n \<and> n \<le> 122)
         \<or> n = 170 \<or> n = 181 \<or> n = 186
         \<or> (192 \<le> n \<and> n \<le> 214) \<or> (216 \<le> n \<and> n \<le> 246) \<or> (248 \<le> n \<and> n \<le> 255))"

definition is_word_constituent :: "char \<Rightarrow> bool" where
  "is_word_constituent c =
     (let n = (of_char c :: nat)
      in is_letter c \<or> (48 \<le> n \<and> n \<le> 57) \<or> n = 95)"

text \<open>
  The contents on which the letters of the specification and the class \<open>\w\<close> of the
  code agree: those without a letter outside \<open>A\<close> to \<open>Z\<close> and \<open>a\<close> to \<open>z\<close>.
\<close>

definition ascii_letters_only :: "string \<Rightarrow> bool" where
  "ascii_letters_only s = list_all (\<lambda>c. is_word_constituent c = is_word_unit c) s"

function spec_tokens :: "string \<Rightarrow> nat \<Rightarrow> (string \<times> nat) list" where
  "spec_tokens [] offset = []"
| "spec_tokens (c # cs) offset =
     (if is_word_constituent c
      then (toLowerCase (takeWhile is_word_constituent (c # cs)), offset)
           # spec_tokens (dropWhile is_word_constituent cs)
               (offset + length (takeWhile is_word_constituent (c # cs)))
      else spec_tokens cs (offset + 1))"
  by pat_completeness auto
termination
  by (relation "measure (\<lambda>(s, offset). length s)")
     (auto simp: le_imp_less_Suc length_dropWhile_le)

definition spec_word_map :: "string \<Rightarrow> string \<rightharpoonup> nat list" where
  "spec_word_map content wd =
     (let ps = map snd (filter (\<lambda>t. fst t = wd) (spec_tokens content 0))
      in if ps = [] then None else Some ps)"

text \<open>
  The word pieces of \<open>split(/\b/)\<close> with their offsets, as the loop of
  \<open>processArticle\<close> meets them.
\<close>

fun piece_tokens :: "string list \<Rightarrow> nat \<Rightarrow> (string \<times> nat) list" where
  "piece_tokens [] position = []"
| "piece_tokens (p # ps) position =
     (if test_word p then [(p, position)] else []) @ piece_tokens ps (position + length p)"

section \<open>Retries: what they leave alone and what they send\<close>

lemma pRetry_frame:
  assumes "\<And>w. g (snd (fn w)) = g w"
  shows "g (snd (pRetry n fn w)) = g w"
proof (induction n arbitrary: w)
  case 0
  show ?case by (simp add: assms)
next
  case (Suc n)
  show ?case
  proof (cases "fn w")
    case (Pair r w')
    have w': "g w' = g w" using assms [of w] Pair by simp
    show ?thesis
    proof (cases r)
      case (Inl e)
      with Pair Suc [of w'] w' show ?thesis by simp
    next
      case (Inr v)
      with Pair w' show ?thesis by simp
    qed
  qed
qed

lemma pRetry_calls:
  assumes "\<And>w. \<exists>cs. redis_calls (snd (fn w)) = redis_calls w @ cs \<and> set cs \<subseteq> S"
  shows "\<exists>cs. redis_calls (snd (pRetry n fn w)) = redis_calls w @ cs \<and> set cs \<subseteq> S"
proof (induction n arbitrary: w)
  case 0
  show ?case by (simp add: assms)
next
  case (Suc n)
  obtain r w' where fw: "fn w = (r, w')" by (cases "fn w")
  from assms [of w] fw obtain cs
    where cs: "redis_calls w' = redis_calls w @ cs" "set cs \<subseteq> S"
    by auto
  show ?case
  proof (cases r)
    case (Inl e)
    from Suc [of w'] obtain ds
      where ds: "redis_calls (snd (pRetry n fn w')) = redis_calls w' @ ds" "set ds \<subseteq> S"
      by blast
    have "redis_calls (snd (pRetry (Suc n) fn w)) = redis_calls w @ (cs @ ds)"
      using fw Inl cs ds by simp
    moreover have "set (cs @ ds) \<subseteq> S" using cs ds by simp
    ultimately show ?thesis by blast
  next
    case (Inr v)
    with fw cs show ?thesis by auto
  qed
qed

lemma get_and_parse_calls:
  "\<exists>cs. redis_calls (snd (get_and_parse k w)) = redis_calls w @ cs \<and> set cs \<subseteq> {Get k}"
  by (simp add: get_and_parse_def redis_get_def redis_call_def
           split: option.splits stored.splits)

lemma redis_set_calls:
  "\<exists>cs. redis_calls (snd (redis_set k v t w)) = redis_calls w @ cs \<and> set cs \<subseteq> {SetEX k v t}"
  by (simp add: redis_set_def redis_call_def)

lemma getCachedResult_calls:
  "\<exists>cs. redis_calls (snd (getCachedResult k w)) = redis_calls w @ cs \<and> set cs \<subseteq> {Get k}"
proof -
  from pRetry_calls [of "get_and_parse k" "{Get k}" retries w, OF get_and_parse_calls]
  obtain cs where
    "redis_calls (snd (pRetry retries (get_and_parse k) w)) = redis_calls w @ cs"
    "set cs \<subseteq> {Get k}"
    by blast
  then show ?thesis
    by (cases "pRetry retries (get_and_parse k) w")
       (auto simp: getCachedResult_def log_entry_def split: sum.splits)
qed

lemma setCachedResult_calls:
  "\<exists>cs. redis_calls (setCachedResult k v w) = redis_calls w @ cs
        \<and> set cs \<subseteq> {SetEX k v 600}"
proof -
  from pRetry_calls [of "redis_set k v 600" "{SetEX k v 600}" retries w, OF redis_set_calls]
  obtain cs where
    "redis_calls (snd (pRetry retries (redis_set k v 600) w)) = redis_calls w @ cs"
    "set cs \<subseteq> {SetEX k v 600}"
    by blast
  then show ?thesis
    by (cases "pRetry retries (redis_set k v 600) w")
       (auto simp: setCachedResult_def log_entry_def split: sum.splits)
qed

lemma findMany_redis_calls: "redis_calls (snd (pRetry n (findMany ws) w)) = redis_calls w"
  by (rule pRetry_frame) (simp add: findMany_def prisma_call_def)

lemma findWords_calls:
  "\<exists>cs. redis_calls (fst (snd (findWords ws w))) = redis_calls w @ cs
        \<and> set cs \<subseteq> {Get (findWords_cacheKey ws)}
                      \<union> {c. \<exists>v. c = SetEX (findWords_cacheKey ws) v 600}"
proof -
  let ?k = "findWords_cacheKey ws"
  obtain cached w1 where g: "getCachedResult ?k w = (cached, w1)"
    by (cases "getCachedResult ?k w")
  from getCachedResult_calls [of ?k w] g obtain cs
    where cs: "redis_calls w1 = redis_calls w @ cs" "set cs \<subseteq> {Get ?k}"
    by auto
  show ?thesis
  proof (cases "truthy cached")
    case True
    with g cs show ?thesis by (auto simp: findWords_def Let_def)
  next
    case False
    let ?n = "map toLowerCase (sort ws)"
    obtain r w2 where q: "pRetry retries (findMany ?n) w1 = (r, w2)"
      by (cases "pRetry retries (findMany ?n) w1")
    have w2: "redis_calls w2 = redis_calls w1"
      using findMany_redis_calls [of retries ?n w1] q by simp
    show ?thesis
    proof (cases r)
      case (Inl e)
      with g False q w2 cs show ?thesis by (auto simp: findWords_def Let_def log_entry_def)
    next
      case (Inr rows)
      let ?v = "JFindWords (format_results rows ?n [])"
      from setCachedResult_calls [of ?k ?v w2] obtain ds where
        ds: "redis_calls (setCachedResult ?k ?v w2) = redis_calls w2 @ ds"
            "set ds \<subseteq> {SetEX ?k ?v 600}"
        by blast
      have "redis_calls (fst (snd (findWords ws w))) = redis_calls w @ (cs @ ds)"
        using g False q Inr w2 cs ds by (simp add: findWords_def Let_def)
      moreover have "set (cs @ ds) \<subseteq> {Get ?k} \<union> {c. \<exists>v. c = SetEX ?k v 600}"
        using cs ds by auto
      ultimately show ?thesis by blast
    qed
  qed
qed

lemma pRetry_invariant:
  assumes "\<And>w. I w \<Longrightarrow> I (snd (fn w))" and "I w"
  shows "I (snd (pRetry n fn w))"
  using assms(2)
proof (induction n arbitrary: w)
  case 0
  then show ?case by (simp add: assms(1))
next
  case (Suc n)
  obtain r w' where fw: "fn w = (r, w')" by (cases "fn w")
  have w': "I w'" using assms(1) [OF Suc.prems] fw by simp
  show ?case
  proof (cases r)
    case (Inl e)
    with fw Suc.IH [OF w'] show ?thesis by simp
  next
    case (Inr v)
    with fw w' show ?thesis by simp
  qed
qed

subsection \<open>Store queries under retry\<close>

lemma exhausted_Cons:
  "take (Suc n) fs = replicate (Suc n) True \<Longrightarrow> \<exists>fs'. fs = True # fs' \<and> take n fs' = replicate n True"
  by (cases fs) auto

lemma not_exhausted_tl:
  "take (Suc (Suc n)) fs \<noteq> replicate (Suc (Suc n)) True \<Longrightarrow> rejects fs
     \<Longrightarrow> take (Suc n) (tl fs) \<noteq> replicate (Suc n) True"
  by (cases fs) (auto simp: rejects_def)

lemma not_exhausted_0: "take (Suc 0) fs \<noteq> replicate (Suc 0) True \<Longrightarrow> \<not> rejects fs"
  by (cases fs) (auto simp: rejects_def)

lemma pRetry_prisma_query_ok:
  assumes fn: "\<And>w. fn w = (if rejects (prisma_faults w) then (Inl PrismaError, prisma_call w)
                             else (Inr (q w), prisma_call w))"
    and q: "\<And>w fs. q (w\<lparr>prisma_faults := fs\<rparr>) = q w"
  shows "take (Suc n) (prisma_faults w) \<noteq> replicate (Suc n) True \<Longrightarrow>
     \<exists>m \<le> n. pRetry n fn w = (Inr (q w), w\<lparr>prisma_faults := drop (Suc m) (prisma_faults w)\<rparr>)"
proof (induction n arbitrary: w)
  case 0
  then have "\<not> rejects (prisma_faults w)" by (rule not_exhausted_0)
  then show ?case by (simp add: fn prisma_call_def drop_Suc)
next
  case (Suc n)
  show ?case
  proof (cases "rejects (prisma_faults w)")
    case True
    from Suc.prems True have "take (Suc n) (tl (prisma_faults w)) \<noteq> replicate (Suc n) True"
      by (rule not_exhausted_tl)
    then have "take (Suc n) (prisma_faults (prisma_call w)) \<noteq> replicate (Suc n) True"
      by (simp add: prisma_call_def)
    from Suc.IH [OF this] obtain m where m: "m \<le> n"
      "pRetry n fn (prisma_call w)
         = (Inr (q (prisma_call w)),
            (prisma_call w)\<lparr>prisma_faults := drop (Suc m) (prisma_faults (prisma_call w))\<rparr>)"
      by blast
    have "pRetry (Suc n) fn w = (Inr (q w), w\<lparr>prisma_faults := drop (Suc (Suc m)) (prisma_faults w)\<rparr>)"
      using True m(2) by (simp add: fn [of w] prisma_call_def q drop_Suc)
    with m(1) show ?thesis by (intro exI [of _ "Suc m"]) simp
  next
    case False
    then have "pRetry (Suc n) fn w = (Inr (q w), w\<lparr>prisma_faults := drop (Suc 0) (prisma_faults w)\<rparr>)"
      by (simp add: fn [of w] prisma_call_def drop_Suc)
    then show ?thesis by (intro exI [of _ 0]) simp
  qed
qed

lemma pRetry_prisma_query_exhausted:
  assumes fn: "\<And>w. fn w = (if rejects (prisma_faults w) then (Inl PrismaError, prisma_call w)
                             else (Inr (q w), prisma_call w))"
  shows "take (Suc n) (prisma_faults w) = replicate (Suc n) True \<Longrightarrow>
     pRetry n fn w = (Inl PrismaError, w\<lparr>prisma_faults := drop (Suc n) (prisma_faults w)\<rparr>)"
proof (induction n arbitrary: w)
  case 0
  then obtain fs where "prisma_faults w = True # fs" using exhausted_Cons by blast
  then show ?case by (simp add: fn rejects_def prisma_call_def)
next
  case (Suc n)
  then obtain fs where fs: "prisma_faults w = True # fs" "take (Suc n) fs = replicate (Suc n) True"
    using exhausted_Cons by blast
  then have "take (Suc n) (prisma_faults (prisma_call w)) = replicate (Suc n) True"
    by (simp add: prisma_call_def)
  from Suc.IH [OF this] fs(1) show ?case
    by (simp add: fn [of w] rejects_def prisma_call_def)
qed

lemma findMany_shape:
  "findMany ws w = (if rejects (prisma_faults w) then (Inl PrismaError, prisma_call w)
                    else (Inr (filter (\<lambda>r. WordIndex.word r \<in> set ws) (wordIndex w)), prisma_call w))"
  by (simp add: findMany_def)

lemma findFirst_shape:
  "findFirst wd w = (if rejects (prisma_faults w) then (Inl PrismaError, prisma_call w)
                    else (Inr (top_count (filter (\<lambda>r. WordArticleCount.word r = wd) (wordArticleCount w))), prisma_call w))"
  by (simp add: findFirst_def)

lemma findMany_ok:
  assumes "take 4 (prisma_faults w) \<noteq> replicate 4 True"
  shows "\<exists>m \<le> 3. pRetry retries (findMany ws) w
           = (Inr (filter (\<lambda>r. WordIndex.word r \<in> set ws) (wordIndex w)),
              w\<lparr>prisma_faults := drop (Suc m) (prisma_faults w)\<rparr>)"
proof -
  have "take (Suc 3) (prisma_faults w) \<noteq> replicate (Suc 3) True" using assms by simp
  from pRetry_prisma_query_ok [of "findMany ws" "\<lambda>w. filter (\<lambda>r. WordIndex.word r \<in> set ws) (wordIndex w)" 3 w, OF findMany_shape _ this]
  show ?thesis by (simp add: retries_def)
qed

lemma findMany_exhausted:
  assumes "take 4 (prisma_faults w) = replicate 4 True"
  shows "pRetry retries (findMany ws) w
           = (Inl PrismaError, w\<lparr>prisma_faults := drop 4 (prisma_faults w)\<rparr>)"
proof -
  have "take (Suc 3) (prisma_faults w) = replicate (Suc 3) True" using assms by simp
  from pRetry_prisma_query_exhausted [of "findMany ws" _ 3 w, OF findMany_shape this]
  show ?thesis by (simp add: retries_def)
qed

lemma findFirst_ok:
  assumes "take 4 (prisma_faults w) \<noteq> replicate 4 True"
  shows "\<exists>m \<le> 3. pRetry retries (findFirst wd) w
           = (Inr (top_count (filter (\<lambda>r. WordArticleCount.word r = wd) (wordArticleCount w))),
              w\<lparr>prisma_faults := drop (Suc m) (prisma_faults w)\<rparr>)"
proof -
  have "take (Suc 3) (prisma_faults w) \<noteq> replicate (Suc 3) True" using assms by simp
  from pRetry_prisma_query_ok [of "findFirst wd" "\<lambda>w. top_count (filter (\<lambda>r. WordArticleCount.word r = wd) (wordArticleCount w))" 3 w, OF findFirst_shape _ this]
  show ?thesis by (simp add: retries_def)
qed

lemma findFirst_exhausted:
  assumes "take 4 (prisma_faults w) = replicate 4 True"
  shows "pRetry retries (findFirst wd) w
           = (Inl PrismaError, w\<lparr>prisma_faults := drop 4 (prisma_faults w)\<rparr>)"
proof -
  have "take (Suc 3) (prisma_faults w) = replicate (Suc 3) True" using assms by simp
  from pRetry_prisma_query_exhausted [of "findFirst wd" _ 3 w, OF findFirst_shape this]
  show ?thesis by (simp add: retries_def)
qed


subsection \<open>Cache reads and writes under retry\<close>

lemma get_and_parse_rejects:
  "rejects (redis_faults w) \<Longrightarrow> get_and_parse k w = (Inl RedisError, redis_call (Get k) w)"
  by (simp add: get_and_parse_def redis_get_def)

lemma get_and_parse_exhausted:
  "take (Suc n) (redis_faults w) = replicate (Suc n) True \<Longrightarrow>
     \<exists>w'. pRetry n (get_and_parse k) w = (Inl RedisError, w')"
proof (induction n arbitrary: w)
  case 0
  then obtain fs where "redis_faults w = True # fs" using exhausted_Cons by blast
  then have "rejects (redis_faults w)" by (simp add: rejects_def)
  then show ?case by (simp add: get_and_parse_rejects)
next
  case (Suc n)
  then obtain fs where fs: "redis_faults w = True # fs" "take (Suc n) fs = replicate (Suc n) True"
    using exhausted_Cons by blast
  then have r: "rejects (redis_faults w)" by (simp add: rejects_def)
  from fs have "take (Suc n) (redis_faults (redis_call (Get k) w)) = replicate (Suc n) True"
    by (simp add: redis_call_def)
  from Suc.IH [OF this] r show ?case by (simp add: get_and_parse_rejects)
qed

lemma get_and_parse_frame:
  "wordIndex (snd (get_and_parse k w)) = wordIndex w"
  "wordArticleCount (snd (get_and_parse k w)) = wordArticleCount w"
  "prisma_faults (snd (get_and_parse k w)) = prisma_faults w"
  "cache (snd (get_and_parse k w)) = cache w"
  "logs (snd (get_and_parse k w)) = logs w"
  by (simp_all add: get_and_parse_def redis_get_def redis_call_def
               split: option.splits stored.splits)

lemma getCachedResult_frame:
  "wordIndex (snd (getCachedResult k w)) = wordIndex w"
  "wordArticleCount (snd (getCachedResult k w)) = wordArticleCount w"
  "prisma_faults (snd (getCachedResult k w)) = prisma_faults w"
  "cache (snd (getCachedResult k w)) = cache w"
proof -
  obtain r w' where p: "pRetry retries (get_and_parse k) w = (r, w')"
    by (cases "pRetry retries (get_and_parse k) w")
  have "wordIndex w' = wordIndex w"
    using pRetry_frame [of wordIndex "get_and_parse k" retries w] p
    by (simp add: get_and_parse_frame)
  moreover have "wordArticleCount w' = wordArticleCount w"
    using pRetry_frame [of wordArticleCount "get_and_parse k" retries w] p
    by (simp add: get_and_parse_frame)
  moreover have "prisma_faults w' = prisma_faults w"
    using pRetry_frame [of prisma_faults "get_and_parse k" retries w] p
    by (simp add: get_and_parse_frame)
  moreover have "cache w' = cache w"
    using pRetry_frame [of cache "get_and_parse k" retries w] p
    by (simp add: get_and_parse_frame)
  ultimately show
    "wordIndex (snd (getCachedResult k w)) = wordIndex w"
    "wordArticleCount (snd (getCachedResult k w)) = wordArticleCount w"
    "prisma_faults (snd (getCachedResult k w)) = prisma_faults w"
    "cache (snd (getCachedResult k w)) = cache w"
    using p by (cases r; simp add: getCachedResult_def log_entry_def)+
qed

lemma getCachedResult_exhausted:
  assumes "take 4 (redis_faults w) = replicate 4 True"
  shows "fst (getCachedResult k w) = JNull"
    and "Warn RedisError k ''Failed to get cached result after retries''
           \<in> set (logs (snd (getCachedResult k w)))"
proof -
  have "take (Suc 3) (redis_faults w) = replicate (Suc 3) True" using assms by simp
  from get_and_parse_exhausted [OF this, of k] obtain w'
    where "pRetry retries (get_and_parse k) w = (Inl RedisError, w')"
    by (auto simp: retries_def)
  then show "fst (getCachedResult k w) = JNull"
    and "Warn RedisError k ''Failed to get cached result after retries''
           \<in> set (logs (snd (getCachedResult k w)))"
    by (simp_all add: getCachedResult_def log_entry_def)
qed

lemma redis_set_logs: "logs (snd (redis_set k v t w)) = logs w"
  by (simp add: redis_set_def redis_call_def)

lemma setCachedResult_logs: "set (logs w) \<subseteq> set (logs (setCachedResult k v w))"
proof -
  obtain r w' where p: "pRetry retries (redis_set k v 600) w = (r, w')"
    by (cases "pRetry retries (redis_set k v 600) w")
  have "logs w' = logs w"
    using pRetry_frame [of logs "redis_set k v 600" retries w] p by (simp add: redis_set_logs)
  with p show ?thesis by (cases r) (auto simp: setCachedResult_def log_entry_def)
qed


lemma get_and_parse_miss:
  "cache_miss k w \<Longrightarrow> pRetry n (get_and_parse k) w = (Inr v, w') \<Longrightarrow> v = JNull"
proof (induction n arbitrary: w)
  case 0
  then show ?case
    by (cases v)
       (auto simp: cache_miss_def get_and_parse_def redis_get_def
             split: if_splits option.splits stored.splits)
next
  case (Suc n)
  obtain r w1 where g: "get_and_parse k w = (r, w1)" by (cases "get_and_parse k w")
  show ?case
  proof (cases r)
    case (Inl e)
    have "cache w1 = cache w" using get_and_parse_frame(4) [of k w] g by simp
    with Suc.prems(1) have m: "cache_miss k w1" by (simp add: cache_miss_def)
    from Suc.prems(2) g Inl have "pRetry n (get_and_parse k) w1 = (Inr v, w')" by simp
    from Suc.IH [OF m this] show ?thesis .
  next
    case (Inr u)
    with Suc.prems g have "get_and_parse k w = (Inr v, w')" by simp
    with Suc.prems(1) show ?thesis
      by (cases v)
         (auto simp: cache_miss_def get_and_parse_def redis_get_def
               split: if_splits option.splits stored.splits)
  qed
qed

lemma getCachedResult_miss: "cache_miss k w \<Longrightarrow> fst (getCachedResult k w) = JNull"
proof -
  assume m: "cache_miss k w"
  obtain r w' where p: "pRetry retries (get_and_parse k) w = (r, w')"
    by (cases "pRetry retries (get_and_parse k) w")
  show ?thesis
  proof (cases r)
    case (Inl e)
    with p show ?thesis by (simp add: getCachedResult_def)
  next
    case (Inr v)
    with p get_and_parse_miss [OF m, of retries v w'] show ?thesis
      by (simp add: getCachedResult_def)
  qed
qed

lemma get_and_parse_healthy:
  "True \<notin> set (redis_faults w) \<Longrightarrow> True \<notin> set (redis_faults (snd (get_and_parse k w)))"
  by (cases "redis_faults w")
     (auto simp: get_and_parse_def redis_get_def redis_call_def
           split: option.splits stored.splits)

lemma getCachedResult_healthy:
  assumes "True \<notin> set (redis_faults w)"
  shows "True \<notin> set (redis_faults (snd (getCachedResult k w)))"
proof -
  obtain r w' where p: "pRetry retries (get_and_parse k) w = (r, w')"
    by (cases "pRetry retries (get_and_parse k) w")
  have "True \<notin> set (redis_faults (snd (pRetry retries (get_and_parse k) w)))"
    using get_and_parse_healthy assms
    by (rule pRetry_invariant [where I = "\<lambda>w. True \<notin> set (redis_faults w)"])
  with p show ?thesis by (cases r) (simp_all add: getCachedResult_def log_entry_def)
qed

lemma healthy_not_rejects: "True \<notin> set fs \<Longrightarrow> \<not> rejects fs"
  by (cases fs) (auto simp: rejects_def)

lemma setCachedResult_healthy:
  assumes "\<not> rejects (redis_faults w)"
  shows "setCachedResult k v w
           = redis_call (SetEX k v 600) (w\<lparr>cache := (cache w)(k \<mapsto> (Value v, 600))\<rparr>)"
proof -
  have "redis_set k v 600 w
          = (Inr (), redis_call (SetEX k v 600) (w\<lparr>cache := (cache w)(k \<mapsto> (Value v, 600))\<rparr>))"
    using assms by (simp add: redis_set_def)
  then show ?thesis by (simp add: setCachedResult_def retries_def numeral_3_eq_3)
qed

lemma setCachedResult_keeps_log:
  "l \<in> set (logs w) \<Longrightarrow> l \<in> set (logs (setCachedResult k v w))"
  using setCachedResult_logs by blast

section \<open>The cache key of findWords\<close>

lemma sort_mset_cong: "mset xs = mset ys \<Longrightarrow> sort xs = sort (ys :: string list)"
  by (rule properties_for_sort) simp_all

lemma toLowerCase_fixed_map:
  "list_all (\<lambda>wd. toLowerCase wd = wd) ws \<Longrightarrow> map toLowerCase ws = ws"
  by (induction ws) simp_all

lemma key_a_a: "findWords_cacheKey [''a'', ''a''] = ''find-words:a,a''"
  by code_simp

lemma key_a: "findWords_cacheKey [''a''] = ''find-words:a''"
  by code_simp

lemma key_hello_world: "findWords_cacheKey [''hello'', ''world''] = ''find-words:hello,world''"
  by code_simp

lemma lower_world_hello: "list_all (\<lambda>wd. toLowerCase wd = wd) [''world'', ''hello'']"
  by code_simp

text \<open>
  C1, as the code has it. The key is \<open>find-words:\<close> followed by the sorted,
  comma-joined query words; for query words that are already lowercase this is the
  key of the sorted, comma-joined, lowercased words. Two inputs that are permutations
  of each other (the same words, each as many times) have the same key, and every
  Redis command of \<open>findWords\<close> is a \<open>GET\<close> or a \<open>SET ... EX 600\<close> on that key.
  Duplicates are not removed from the key.
\<close>

theorem findWords_cache_entry:
  assumes "list_all (\<lambda>wd. toLowerCase wd = wd) ws" and "mset ws' = mset ws"
  shows "findWords_cacheKey ws = ''find-words:'' @ join '','' (sort (map toLowerCase ws))
         \<and> findWords_cacheKey ws' = findWords_cacheKey ws
         \<and> (\<forall>c \<in> set (issued w (fst (snd (findWords ws w)))).
               c = Get (findWords_cacheKey ws)
               \<or> (\<exists>v. c = SetEX (findWords_cacheKey ws) v 600))"
proof -
  from findWords_calls [of ws w] obtain cs where
    cs: "redis_calls (fst (snd (findWords ws w))) = redis_calls w @ cs"
        "set cs \<subseteq> {Get (findWords_cacheKey ws)}
                   \<union> {c. \<exists>v. c = SetEX (findWords_cacheKey ws) v 600}"
    by blast
  have "issued w (fst (snd (findWords ws w))) = cs"
    using cs(1) by (simp add: issued_def)
  with cs(2) have "\<forall>c \<in> set (issued w (fst (snd (findWords ws w)))).
               c = Get (findWords_cacheKey ws)
               \<or> (\<exists>v. c = SetEX (findWords_cacheKey ws) v 600)"
    by auto
  moreover have "findWords_cacheKey ws
                 = ''find-words:'' @ join '','' (sort (map toLowerCase ws))"
    unfolding findWords_cacheKey_def toLowerCase_fixed_map [OF assms(1)] by (rule refl)
  moreover have "findWords_cacheKey ws' = findWords_cacheKey ws"
    unfolding findWords_cacheKey_def sort_mset_cong [OF assms(2)] by (rule refl)
  ultimately show ?thesis by blast
qed

theorem findWords_cache_entry_witness:
  "list_all (\<lambda>wd. toLowerCase wd = wd) [''world'', ''hello'']
   \<and> mset [''hello'', ''world''] = mset [''world'', ''hello'']
   \<and> findWords_cacheKey [''world'', ''hello''] = ''find-words:hello,world''"
proof -
  have m: "mset [''hello'', ''world''] = mset [''world'', ''hello'']" by simp
  from findWords_cache_entry [OF lower_world_hello m, of empty_world]
  have "findWords_cacheKey [''hello'', ''world''] = findWords_cacheKey [''world'', ''hello'']"
    by blast
  with lower_world_hello m key_hello_world show ?thesis by simp
qed

theorem findWords_cacheKey_duplicates_counterexample:
  "set (map toLowerCase [''a'', ''a'']) = set (map toLowerCase [''a''])
   \<and> findWords_cacheKey [''a'', ''a''] \<noteq> findWords_cacheKey [''a'']"
  by (simp add: key_a_a key_a)

section \<open>The argument of findWords is sorted in place\<close>

lemma findWords_array: "snd (snd (findWords ws w)) = sort ws"
  by (simp add: findWords_def Let_def split: prod.splits sum.splits)

lemma sort_b_a: "sort [''b'', ''a''] = [''a'', ''b'']"
  by code_simp

text \<open>
  C10. Whatever the outcome of the call (a cache hit, a result from the store or an
  error), the caller's array after \<open>findWords\<close> is the sorted array of the words as
  they were passed, before any lowercasing; for \<open>["b", "a"]\<close> the original order is
  lost.
\<close>

theorem findWords_sorts_callers_array:
  "snd (snd (findWords ws w)) = sort ws
   \<and> snd (snd (findWords [''b'', ''a''] w)) \<noteq> [''b'', ''a'']"
  by (simp only: findWords_array sort_b_a) simp

section \<open>Indexing an article\<close>

lemma create_rows_wordIndex:
  "wordIndex (create_rows aid es w) = wordIndex w @ map (index_row aid) es"
  by (induction aid es w rule: create_rows.induct) (simp_all add: index_row_def)

lemma create_rows_wordArticleCount:
  "wordArticleCount (create_rows aid es w) = wordArticleCount w @ map (count_row aid) es"
  by (induction aid es w rule: create_rows.induct) (simp_all add: count_row_def)

lemma create_rows_cache: "cache (create_rows aid es w) = cache w"
  by (induction aid es w rule: create_rows.induct) simp_all

lemma create_rows_redis_calls: "redis_calls (create_rows aid es w) = redis_calls w"
  by (induction aid es w rule: create_rows.induct) simp_all

lemma create_rows_redis_faults: "redis_faults (create_rows aid es w) = redis_faults w"
  by (induction aid es w rule: create_rows.induct) simp_all

lemma create_rows_logs: "logs (create_rows aid es w) = logs w"
  by (induction aid es w rule: create_rows.induct) simp_all

lemma transaction_rejects:
  "rejects (prisma_faults w) \<Longrightarrow> transaction aid wp w = (Inl PrismaError, prisma_call w)"
  by (simp add: transaction_def)

lemma transaction_runs:
  "\<not> rejects (prisma_faults w) \<Longrightarrow>
     transaction aid wp w
       = (Inr (), create_rows aid (object_entries wp) (delete_rows aid (prisma_call w)))"
  by (simp add: transaction_def)

lemma rejects_Cons: "rejects fs \<Longrightarrow> \<exists>fs'. fs = True # fs'"
  by (cases fs) (auto simp: rejects_def)

lemma transaction_tables:
  "pRetry n (transaction aid wp) w = (Inr u, w') \<Longrightarrow>
     wordIndex w' = filter (\<lambda>r. WordIndex.articleId r \<noteq> aid) (wordIndex w)
                    @ map (index_row aid) (object_entries wp)
     \<and> wordArticleCount w' = filter (\<lambda>r. WordArticleCount.articleId r \<noteq> aid) (wordArticleCount w)
                    @ map (count_row aid) (object_entries wp)"
proof (induction n arbitrary: w)
  case 0
  show ?case
  proof (cases "rejects (prisma_faults w)")
    case True
    with 0 show ?thesis by (simp add: transaction_rejects)
  next
    case False
    with 0 show ?thesis
      by (auto simp: transaction_runs create_rows_wordIndex create_rows_wordArticleCount
                     delete_rows_def prisma_call_def)
  qed
next
  case (Suc n)
  show ?case
  proof (cases "rejects (prisma_faults w)")
    case True
    with Suc.prems have "pRetry n (transaction aid wp) (prisma_call w) = (Inr u, w')"
      by (simp add: transaction_rejects)
    from Suc.IH [OF this] show ?thesis by (simp add: prisma_call_def)
  next
    case False
    with Suc.prems show ?thesis
      by (auto simp: transaction_runs create_rows_wordIndex create_rows_wordArticleCount
                     delete_rows_def prisma_call_def)
  qed
qed

lemma transaction_succeeds:
  "take (Suc n) (prisma_faults w) \<noteq> replicate (Suc n) True \<Longrightarrow>
     \<exists>w'. pRetry n (transaction aid wp) w = (Inr (), w')"
proof (induction n arbitrary: w)
  case 0
  then have "\<not> rejects (prisma_faults w)"
    by (cases "prisma_faults w") (auto simp: rejects_def)
  then show ?case by (simp add: transaction_runs)
next
  case (Suc n)
  show ?case
  proof (cases "rejects (prisma_faults w)")
    case True
    then obtain fs where fs: "prisma_faults w = True # fs"
      using rejects_Cons by blast
    with Suc.prems have "take (Suc n) (prisma_faults (prisma_call w)) \<noteq> replicate (Suc n) True"
      by (simp add: prisma_call_def)
    from Suc.IH [OF this] True show ?thesis by (simp add: transaction_rejects)
  next
    case False
    then show ?thesis by (simp add: transaction_runs)
  qed
qed

lemma transaction_exhausted:
  "take (Suc n) (prisma_faults w) = replicate (Suc n) True \<Longrightarrow>
     \<exists>w'. pRetry n (transaction aid wp) w = (Inl PrismaError, w')
          \<and> wordIndex w' = wordIndex w \<and> wordArticleCount w' = wordArticleCount w
          \<and> logs w' = logs w \<and> cache w' = cache w \<and> redis_calls w' = redis_calls w"
proof (induction n arbitrary: w)
  case 0
  then obtain fs where fs: "prisma_faults w = True # fs"
    by (cases "prisma_faults w") auto
  then have "rejects (prisma_faults w)" by (simp add: rejects_def)
  then show ?case by (simp add: transaction_rejects prisma_call_def)
next
  case (Suc n)
  then obtain fs where fs: "prisma_faults w = True # fs"
    by (cases "prisma_faults w") auto
  then have r: "rejects (prisma_faults w)" by (simp add: rejects_def)
  from fs Suc.prems have "take (Suc n) (prisma_faults (prisma_call w)) = replicate (Suc n) True"
    by (simp add: prisma_call_def)
  from Suc.IH [OF this] r show ?case
    by (simp add: transaction_rejects prisma_call_def)
qed

lemma del_all_wordIndex: "wordIndex (del_all ks w) = wordIndex w"
  by (induction ks arbitrary: w) (simp_all add: redis_del_def redis_call_def)

lemma del_all_wordArticleCount: "wordArticleCount (del_all ks w) = wordArticleCount w"
  by (induction ks arbitrary: w) (simp_all add: redis_del_def redis_call_def)

lemma del_all_logs: "logs (del_all ks w) = logs w"
  by (induction ks arbitrary: w) (simp_all add: redis_del_def redis_call_def)

lemma del_all_redis_calls: "redis_calls (del_all ks w) = redis_calls w @ map Del ks"
  by (induction ks arbitrary: w) (simp_all add: redis_del_def redis_call_def)


lemma set_object_entries: "set (object_entries obj) = set obj"
  by (auto simp: object_entries_def)

lemma obj_set_distinct: "distinct (map fst obj) \<Longrightarrow> distinct (map fst (obj_set obj k v))"
  by (simp add: obj_set_def distinct_update)

lemma index_words_distinct:
  "index_words ws wp pos = Inr wp' \<Longrightarrow> distinct (map fst wp) \<Longrightarrow> distinct (map fst wp')"
proof (induction ws wp pos rule: index_words.induct)
  case (1 wordPositions position)
  then show ?case by simp
next
  case (2 wd ws wordPositions position)
  show ?case
  proof (cases "test_word wd")
    case False
    with 2 show ?thesis by simp
  next
    case True
    let ?wp = "if obj_get wordPositions wd = Undefined then obj_set wordPositions wd [] else wordPositions"
    have d: "distinct (map fst ?wp)" using 2(4) by (simp add: obj_set_distinct)
    show ?thesis
    proof (cases "obj_get ?wp wd")
      case (Own ps)
      from 2(3) True Own have "index_words ws (obj_set ?wp wd (ps @ [position])) (position + length wd) = Inr wp'"
        by (simp add: Let_def)
      moreover have "distinct (map fst (obj_set ?wp wd (ps @ [position])))"
        using d by (rule obj_set_distinct)
      ultimately show ?thesis using 2(1) [OF True refl Own] by blast
    next
      case Inherited
      with 2(3) True show ?thesis by (simp add: Let_def)
    next
      case Undefined
      with 2(3) True show ?thesis by (simp add: Let_def)
    qed
  qed
qed

lemma word_positions_distinct: "word_positions content = Inr wp \<Longrightarrow> distinct (map fst wp)"
  unfolding word_positions_def by (erule index_words_distinct) simp

lemma invalidate_wordIndex: "wordIndex (invalidate wp w) = wordIndex w"
  unfolding invalidate_def by (rule del_all_wordIndex)

lemma invalidate_wordArticleCount: "wordArticleCount (invalidate wp w) = wordArticleCount w"
  unfolding invalidate_def by (rule del_all_wordArticleCount)

lemma invalidate_logs: "logs (invalidate wp w) = logs w"
  unfolding invalidate_def by (rule del_all_logs)

lemma processArticle_success:
  assumes "processArticle aid content w = (Inr u, w')"
  obtains wp where "word_positions content = Inr wp"
    and "wordIndex w' = filter (\<lambda>r. WordIndex.articleId r \<noteq> aid) (wordIndex w)
                    @ map (index_row aid) (object_entries wp)"
    and "wordArticleCount w' = filter (\<lambda>r. WordArticleCount.articleId r \<noteq> aid) (wordArticleCount w)
                    @ map (count_row aid) (object_entries wp)"
proof -
  from assms obtain wp where wp: "word_positions content = Inr wp"
    by (cases "word_positions content") (auto simp: processArticle_def)
  obtain r w1 where t: "pRetry retries (transaction aid wp) w = (r, w1)"
    by (cases "pRetry retries (transaction aid wp) w")
  from assms wp t obtain u' where r: "r = Inr u'" and w': "w' = invalidate wp w1"
    by (cases r) (auto simp: processArticle_def)
  from transaction_tables [OF t [unfolded r]] w'
  have "wordIndex w' = filter (\<lambda>r. WordIndex.articleId r \<noteq> aid) (wordIndex w)
                    @ map (index_row aid) (object_entries wp)"
    and "wordArticleCount w' = filter (\<lambda>r. WordArticleCount.articleId r \<noteq> aid) (wordArticleCount w)
                    @ map (count_row aid) (object_entries wp)"
    by (simp_all add: invalidate_wordIndex invalidate_wordArticleCount)
  with wp that show thesis by blast
qed

lemma filter_article_index:
  "filter (\<lambda>r. WordIndex.articleId r = aid)
     (filter (\<lambda>r. WordIndex.articleId r \<noteq> aid) old @ map (index_row aid) es)
   = map (index_row aid) es"
proof -
  have "filter (\<lambda>r. WordIndex.articleId r = aid) (filter (\<lambda>r. WordIndex.articleId r \<noteq> aid) old) = []"
    by (simp add: filter_empty_conv)
  moreover have "filter (\<lambda>r. WordIndex.articleId r = aid) (map (index_row aid) es)
                   = map (index_row aid) es"
    by (induction es) (simp_all add: index_row_def)
  ultimately show ?thesis by simp
qed

lemma filter_article_count:
  "filter (\<lambda>r. WordArticleCount.articleId r = aid)
     (filter (\<lambda>r. WordArticleCount.articleId r \<noteq> aid) old @ map (count_row aid) es)
   = map (count_row aid) es"
proof -
  have "filter (\<lambda>r. WordArticleCount.articleId r = aid)
          (filter (\<lambda>r. WordArticleCount.articleId r \<noteq> aid) old) = []"
    by (simp add: filter_empty_conv)
  moreover have "filter (\<lambda>r. WordArticleCount.articleId r = aid) (map (count_row aid) es)
                   = map (count_row aid) es"
    by (induction es) (simp_all add: count_row_def)
  ultimately show ?thesis by simp
qed

text \<open>
  C3. After \<open>processArticle\<close> has succeeded for an article: every
  \<open>WordArticleCount\<close> row of that article has a \<open>WordIndex\<close> row of the same
  article and word, and its count is the length of the positions of every such row;
  every \<open>WordIndex\<close> row of that article has a \<open>WordArticleCount\<close> row of the same
  article and word whose count is the length of its positions; and the rows of the
  article in the two tables are exactly the two rows made from each entry of the
  positional map of the content, in the same order: both rows of a word are created
  in the same step of the same transaction (\<open>create_rows\<close>), from the same entry.
\<close>

theorem processArticle_count_is_positions_length:
  assumes "processArticle aid content w = (Inr u, w')"
  shows "(\<forall>c \<in> set (wordArticleCount w'). WordArticleCount.articleId c = aid \<longrightarrow>
           (\<exists>i \<in> set (wordIndex w').
              WordIndex.articleId i = aid \<and> WordIndex.word i = WordArticleCount.word c)
           \<and> (\<forall>i \<in> set (wordIndex w').
                 WordIndex.articleId i = aid \<and> WordIndex.word i = WordArticleCount.word c
                 \<longrightarrow> count c = length (positions i)))
       \<and> (\<forall>i \<in> set (wordIndex w'). WordIndex.articleId i = aid \<longrightarrow>
             (\<exists>c \<in> set (wordArticleCount w').
                WordArticleCount.articleId c = aid
                \<and> WordArticleCount.word c = WordIndex.word i
                \<and> count c = length (positions i)))
       \<and> (\<exists>wordPositions. word_positions content = Inr wordPositions
             \<and> filter (\<lambda>r. WordIndex.articleId r = aid) (wordIndex w')
                 = map (index_row aid) (object_entries wordPositions)
             \<and> filter (\<lambda>r. WordArticleCount.articleId r = aid) (wordArticleCount w')
                 = map (count_row aid) (object_entries wordPositions))"
proof -
  from assms obtain wp where wp: "word_positions content = Inr wp"
    and wi: "wordIndex w' = filter (\<lambda>r. WordIndex.articleId r \<noteq> aid) (wordIndex w)
                    @ map (index_row aid) (object_entries wp)"
    and wc: "wordArticleCount w'
               = filter (\<lambda>r. WordArticleCount.articleId r \<noteq> aid) (wordArticleCount w)
                 @ map (count_row aid) (object_entries wp)"
    by (rule processArticle_success)
  have d: "distinct (map fst wp)" using wp by (rule word_positions_distinct)
  have counts: "\<forall>c \<in> set (wordArticleCount w'). WordArticleCount.articleId c = aid \<longrightarrow>
           (\<exists>i \<in> set (wordIndex w').
              WordIndex.articleId i = aid \<and> WordIndex.word i = WordArticleCount.word c)
           \<and> (\<forall>i \<in> set (wordIndex w').
                 WordIndex.articleId i = aid \<and> WordIndex.word i = WordArticleCount.word c
                 \<longrightarrow> count c = length (positions i))"
  proof (intro ballI impI)
    fix c
    assume c: "c \<in> set (wordArticleCount w')" and ca: "WordArticleCount.articleId c = aid"
    from c ca wc obtain e where e: "e \<in> set wp" and ce: "c = count_row aid e"
      by (auto simp: set_object_entries)
    have ex: "\<exists>i \<in> set (wordIndex w').
                WordIndex.articleId i = aid \<and> WordIndex.word i = WordArticleCount.word c"
    proof
      show "index_row aid e \<in> set (wordIndex w')"
        using e wi by (simp add: set_object_entries)
      show "WordIndex.articleId (index_row aid e) = aid
            \<and> WordIndex.word (index_row aid e) = WordArticleCount.word c"
        by (simp add: index_row_def ce count_row_def)
    qed
    have all: "\<forall>i \<in> set (wordIndex w').
                   WordIndex.articleId i = aid \<and> WordIndex.word i = WordArticleCount.word c
                   \<longrightarrow> count c = length (positions i)"
    proof (intro ballI impI)
      fix i
      assume i: "i \<in> set (wordIndex w')"
        and ia: "WordIndex.articleId i = aid \<and> WordIndex.word i = WordArticleCount.word c"
      from i ia wi obtain e' where e': "e' \<in> set wp" and ie: "i = index_row aid e'"
        by (auto simp: set_object_entries)
      from ia ie ce have "fst e' = fst e" by (simp add: index_row_def count_row_def)
      with d e e' have "e' = e" by (metis eq_key_imp_eq_value prod.collapse)
      with ie ce show "count c = length (positions i)"
        by (simp add: index_row_def count_row_def)
    qed
    from ex all show "(\<exists>i \<in> set (wordIndex w').
                WordIndex.articleId i = aid \<and> WordIndex.word i = WordArticleCount.word c)
             \<and> (\<forall>i \<in> set (wordIndex w').
                   WordIndex.articleId i = aid \<and> WordIndex.word i = WordArticleCount.word c
                   \<longrightarrow> count c = length (positions i))" by blast
  qed
  have indexes: "\<forall>i \<in> set (wordIndex w'). WordIndex.articleId i = aid \<longrightarrow>
             (\<exists>c \<in> set (wordArticleCount w').
                WordArticleCount.articleId c = aid
                \<and> WordArticleCount.word c = WordIndex.word i
                \<and> count c = length (positions i))"
  proof (intro ballI impI)
    fix i
    assume i: "i \<in> set (wordIndex w')" and ia: "WordIndex.articleId i = aid"
    from i ia wi obtain e where e: "e \<in> set wp" and ie: "i = index_row aid e"
      by (auto simp: set_object_entries)
    show "\<exists>c \<in> set (wordArticleCount w').
                WordArticleCount.articleId c = aid
                \<and> WordArticleCount.word c = WordIndex.word i
                \<and> count c = length (positions i)"
    proof
      show "count_row aid e \<in> set (wordArticleCount w')"
        using e wc by (simp add: set_object_entries)
      show "WordArticleCount.articleId (count_row aid e) = aid
            \<and> WordArticleCount.word (count_row aid e) = WordIndex.word i
            \<and> count (count_row aid e) = length (positions i)"
        by (simp add: ie index_row_def count_row_def)
    qed
  qed
  have together: "\<exists>wordPositions. word_positions content = Inr wordPositions
             \<and> filter (\<lambda>r. WordIndex.articleId r = aid) (wordIndex w')
                 = map (index_row aid) (object_entries wordPositions)
             \<and> filter (\<lambda>r. WordArticleCount.articleId r = aid) (wordArticleCount w')
                 = map (count_row aid) (object_entries wordPositions)"
    using wp unfolding wi wc filter_article_index filter_article_count by blast
  from counts indexes together show ?thesis by blast
qed

lemma fresh_ok:
  "fst (processArticle ''3'' ''Hello world! Hello again.'' indexed_world) = Inr ()"
  by code_simp

lemma fresh_none_before:
  "filter (\<lambda>r. WordIndex.articleId r = ''3'') (wordIndex indexed_world) = []
   \<and> filter (\<lambda>r. WordArticleCount.articleId r = ''3'') (wordArticleCount indexed_world) = []"
  by code_simp

lemma fresh_hello_count:
  "\<lparr>WordArticleCount.word = ''hello'', WordArticleCount.articleId = ''3'', count = 2\<rparr>
     \<in> set (wordArticleCount
               (snd (processArticle ''3'' ''Hello world! Hello again.'' indexed_world)))"
  by code_simp

lemma fresh_again_index:
  "\<lparr>WordIndex.articleId = ''3'', WordIndex.word = ''again'', positions = [19]\<rparr>
     \<in> set (wordIndex (snd (processArticle ''3'' ''Hello world! Hello again.'' indexed_world)))"
  by code_simp

lemma fresh_positions:
  "word_positions ''Hello world! Hello again.''
     = Inr [(''hello'', [0, 13]), (''world'', [6]), (''again'', [19])]"
  by code_simp

lemma fresh_count_rows:
  "map (count_row ''3'')
     (object_entries [(''hello'', [0, 13]), (''world'', [6]), (''again'', [19])])
   = [\<lparr>WordArticleCount.word = ''hello'', WordArticleCount.articleId = ''3'', count = 2\<rparr>,
      \<lparr>WordArticleCount.word = ''world'', WordArticleCount.articleId = ''3'', count = 1\<rparr>,
      \<lparr>WordArticleCount.word = ''again'', WordArticleCount.articleId = ''3'', count = 1\<rparr>]"
  by code_simp

lemma fresh_index_rows:
  "map (index_row ''3'')
     (object_entries [(''hello'', [0, 13]), (''world'', [6]), (''again'', [19])])
   = [\<lparr>WordIndex.articleId = ''3'', WordIndex.word = ''hello'', positions = [0, 13]\<rparr>,
      \<lparr>WordIndex.articleId = ''3'', WordIndex.word = ''world'', positions = [6]\<rparr>,
      \<lparr>WordIndex.articleId = ''3'', WordIndex.word = ''again'', positions = [19]\<rparr>]"
  by code_simp

theorem processArticle_count_is_positions_length_witness:
  "fst (processArticle ''3'' ''Hello world! Hello again.'' indexed_world) = Inr ()
   \<and> filter (\<lambda>r. WordArticleCount.articleId r = ''3'') (wordArticleCount indexed_world) = []
   \<and> filter (\<lambda>r. WordArticleCount.articleId r = ''3'')
        (wordArticleCount (snd (processArticle ''3'' ''Hello world! Hello again.'' indexed_world)))
       = [\<lparr>WordArticleCount.word = ''hello'', WordArticleCount.articleId = ''3'', count = 2\<rparr>,
          \<lparr>WordArticleCount.word = ''world'', WordArticleCount.articleId = ''3'', count = 1\<rparr>,
          \<lparr>WordArticleCount.word = ''again'', WordArticleCount.articleId = ''3'', count = 1\<rparr>]
   \<and> filter (\<lambda>r. WordIndex.articleId r = ''3'')
        (wordIndex (snd (processArticle ''3'' ''Hello world! Hello again.'' indexed_world)))
       = [\<lparr>WordIndex.articleId = ''3'', WordIndex.word = ''hello'', positions = [0, 13]\<rparr>,
          \<lparr>WordIndex.articleId = ''3'', WordIndex.word = ''world'', positions = [6]\<rparr>,
          \<lparr>WordIndex.articleId = ''3'', WordIndex.word = ''again'', positions = [19]\<rparr>]
   \<and> (\<exists>i \<in> set (wordIndex
                      (snd (processArticle ''3'' ''Hello world! Hello again.'' indexed_world))).
         WordIndex.articleId i = ''3'' \<and> WordIndex.word i = ''hello''
         \<and> length (positions i) = 2)
   \<and> (\<exists>c \<in> set (wordArticleCount
                      (snd (processArticle ''3'' ''Hello world! Hello again.'' indexed_world))).
         WordArticleCount.articleId c = ''3'' \<and> WordArticleCount.word c = ''again''
         \<and> count c = 1)"
proof -
  let ?w = "snd (processArticle ''3'' ''Hello world! Hello again.'' indexed_world)"
  let ?c = "\<lparr>WordArticleCount.word = ''hello'', WordArticleCount.articleId = ''3'', count = 2\<rparr>"
  let ?i = "\<lparr>WordIndex.articleId = ''3'', WordIndex.word = ''again'', positions = [19]\<rparr>"
  have e: "processArticle ''3'' ''Hello world! Hello again.'' indexed_world = (Inr (), ?w)"
    using fresh_ok by (metis prod.collapse)
  note t = processArticle_count_is_positions_length [OF e]
  from t fresh_hello_count
  have "WordArticleCount.articleId ?c = ''3'' \<longrightarrow>
           (\<exists>i \<in> set (wordIndex ?w).
              WordIndex.articleId i = ''3'' \<and> WordIndex.word i = WordArticleCount.word ?c)
           \<and> (\<forall>i \<in> set (wordIndex ?w).
                 WordIndex.articleId i = ''3'' \<and> WordIndex.word i = WordArticleCount.word ?c
                 \<longrightarrow> count ?c = length (positions i))"
    by blast
  then have a: "\<exists>i \<in> set (wordIndex ?w).
         WordIndex.articleId i = ''3'' \<and> WordIndex.word i = ''hello''
         \<and> length (positions i) = 2"
    by auto
  from t fresh_again_index
  have "WordIndex.articleId ?i = ''3'' \<longrightarrow>
             (\<exists>c \<in> set (wordArticleCount ?w).
                WordArticleCount.articleId c = ''3''
                \<and> WordArticleCount.word c = WordIndex.word ?i
                \<and> count c = length (positions ?i))"
    by blast
  then have b: "\<exists>c \<in> set (wordArticleCount ?w).
         WordArticleCount.articleId c = ''3'' \<and> WordArticleCount.word c = ''again''
         \<and> count c = 1"
    by auto
  from t have "\<exists>wordPositions. word_positions ''Hello world! Hello again.'' = Inr wordPositions
             \<and> filter (\<lambda>r. WordIndex.articleId r = ''3'') (wordIndex ?w)
                 = map (index_row ''3'') (object_entries wordPositions)
             \<and> filter (\<lambda>r. WordArticleCount.articleId r = ''3'') (wordArticleCount ?w)
                 = map (count_row ''3'') (object_entries wordPositions)"
    by blast
  then have c: "filter (\<lambda>r. WordIndex.articleId r = ''3'') (wordIndex ?w)
                 = map (index_row ''3'')
                     (object_entries [(''hello'', [0, 13]), (''world'', [6]), (''again'', [19])])
             \<and> filter (\<lambda>r. WordArticleCount.articleId r = ''3'') (wordArticleCount ?w)
                 = map (count_row ''3'')
                     (object_entries [(''hello'', [0, 13]), (''world'', [6]), (''again'', [19])])"
    unfolding fresh_positions by blast
  from fresh_ok fresh_none_before a b c [unfolded fresh_count_rows fresh_index_rows]
  show ?thesis by blast
qed

subsection \<open>Content without words\<close>

lemma lower_unit_nonword: "\<not> is_word_unit c \<Longrightarrow> \<not> is_word_unit (lower_unit c)"
proof (cases "is_upper_unit c")
  case False
  assume "\<not> is_word_unit c"
  with False show ?thesis by (simp add: lower_unit_def)
next
  case True
  assume n: "\<not> is_word_unit c"
  let ?n = "of_char c :: nat"
  from True n have r: "192 \<le> ?n \<and> ?n \<le> 222"
    by (auto simp: is_upper_unit_def is_word_unit_def Let_def)
  then have "(?n + 32) mod 256 = ?n + 32" by simp
  then have "(of_char (char_of (?n + 32)) :: nat) = ?n + 32" by simp
  with True r show ?thesis by (simp add: lower_unit_def is_word_unit_def Let_def)
qed

lemma split_boundary_nonword:
  "list_all (\<lambda>c. \<not> is_word_unit c) s \<Longrightarrow> split_boundary s = [s]"
  by (induction s rule: split_boundary.induct) simp_all

lemma test_word_nonword: "list_all (\<lambda>c. \<not> is_word_unit c) s \<Longrightarrow> \<not> test_word s"
  by (cases s) (simp_all add: test_word_def)

lemma toLowerCase_nonword:
  "list_all (\<lambda>c. \<not> is_word_unit c) s \<Longrightarrow> list_all (\<lambda>c. \<not> is_word_unit c) (toLowerCase s)"
  by (induction s) (simp_all add: toLowerCase_def lower_unit_nonword)

lemma word_positions_nonword:
  assumes "list_all (\<lambda>c. \<not> is_word_unit c) content"
  shows "word_positions content = Inr []"
proof -
  have l: "list_all (\<lambda>c. \<not> is_word_unit c) (toLowerCase content)"
    using assms by (rule toLowerCase_nonword)
  show ?thesis
    unfolding word_positions_def split_boundary_nonword [OF l]
    using test_word_nonword [OF l] by simp
qed

lemma object_entries_Nil: "object_entries [] = []"
  by (simp add: object_entries_def)

text \<open>
  C9. For content without any word unit (the empty content, or punctuation only such
  as \<open>!@#$%^&*()\<close>), and a store that answers within the retries,
  \<open>processArticle\<close> succeeds; afterwards no \<open>WordIndex\<close> and no
  \<open>WordArticleCount\<close> row of the article is left, and the rows of the other
  articles are as before.
\<close>

theorem processArticle_without_words:
  assumes "list_all (\<lambda>c. \<not> is_word_unit c) content"
      and "take 4 (prisma_faults w) \<noteq> replicate 4 True"
  shows "\<exists>w'. processArticle aid content w = (Inr (), w')
          \<and> filter (\<lambda>r. WordIndex.articleId r = aid) (wordIndex w') = []
          \<and> filter (\<lambda>r. WordArticleCount.articleId r = aid) (wordArticleCount w') = []
          \<and> wordIndex w' = filter (\<lambda>r. WordIndex.articleId r \<noteq> aid) (wordIndex w)
          \<and> wordArticleCount w'
              = filter (\<lambda>r. WordArticleCount.articleId r \<noteq> aid) (wordArticleCount w)"
proof -
  have wp: "word_positions content = Inr []" using assms(1) by (rule word_positions_nonword)
  have "take (Suc 3) (prisma_faults w) \<noteq> replicate (Suc 3) True" using assms(2) by simp
  from transaction_succeeds [OF this, of aid "[]"] obtain w1
    where t: "pRetry retries (transaction aid []) w = (Inr (), w1)"
    by (auto simp: retries_def)
  have p: "processArticle aid content w = (Inr (), invalidate [] w1)"
    by (simp add: processArticle_def wp t)
  from processArticle_success [OF p] wp
  have wi: "wordIndex (invalidate [] w1) = filter (\<lambda>r. WordIndex.articleId r \<noteq> aid) (wordIndex w)"
    and wc: "wordArticleCount (invalidate [] w1)
               = filter (\<lambda>r. WordArticleCount.articleId r \<noteq> aid) (wordArticleCount w)"
    by (auto simp: object_entries_Nil)
  have "filter (\<lambda>r. WordIndex.articleId r = aid) (wordIndex (invalidate [] w1)) = []"
    unfolding wi by (simp add: filter_empty_conv)
  moreover have "filter (\<lambda>r. WordArticleCount.articleId r = aid)
                   (wordArticleCount (invalidate [] w1)) = []"
    unfolding wc by (simp add: filter_empty_conv)
  ultimately show ?thesis using p wi wc by blast
qed


lemma punct_nonword: "list_all (\<lambda>c. \<not> is_word_unit c) ''!@#$%^&*()''"
  by code_simp

lemma indexed_prisma: "take 4 (prisma_faults indexed_world) \<noteq> replicate 4 True"
  by code_simp

lemma indexed_other_index:
  "filter (\<lambda>r. WordIndex.articleId r \<noteq> ''1'') (wordIndex indexed_world)
     = [\<lparr>WordIndex.articleId = ''2'', WordIndex.word = ''hello'', positions = [0, 6, 12]\<rparr>]"
  by code_simp

lemma indexed_other_count:
  "filter (\<lambda>r. WordArticleCount.articleId r \<noteq> ''1'') (wordArticleCount indexed_world)
     = [\<lparr>WordArticleCount.word = ''hello'', WordArticleCount.articleId = ''2'', count = 3\<rparr>]"
  by code_simp

theorem processArticle_without_words_witness:
  "list_all (\<lambda>c. \<not> is_word_unit c) ''!@#$%^&*()''
   \<and> list_all (\<lambda>c. \<not> is_word_unit c) ''''
   \<and> take 4 (prisma_faults indexed_world) \<noteq> replicate 4 True
   \<and> (\<exists>w'. processArticle ''1'' ''!@#$%^&*()'' indexed_world = (Inr (), w')
          \<and> wordIndex w'
              = [\<lparr>WordIndex.articleId = ''2'', WordIndex.word = ''hello'', positions = [0, 6, 12]\<rparr>]
          \<and> wordArticleCount w'
              = [\<lparr>WordArticleCount.word = ''hello'', WordArticleCount.articleId = ''2'',
                  count = 3\<rparr>])
   \<and> (\<exists>w'. processArticle ''1'' '''' indexed_world = (Inr (), w')
          \<and> wordIndex w'
              = [\<lparr>WordIndex.articleId = ''2'', WordIndex.word = ''hello'', positions = [0, 6, 12]\<rparr>]
          \<and> wordArticleCount w'
              = [\<lparr>WordArticleCount.word = ''hello'', WordArticleCount.articleId = ''2'',
                  count = 3\<rparr>])"
proof -
  have e: "list_all (\<lambda>c. \<not> is_word_unit c) ''''" by simp
  from processArticle_without_words [OF punct_nonword indexed_prisma, of "''1''"]
  have a: "\<exists>w'. processArticle ''1'' ''!@#$%^&*()'' indexed_world = (Inr (), w')
          \<and> wordIndex w'
              = [\<lparr>WordIndex.articleId = ''2'', WordIndex.word = ''hello'', positions = [0, 6, 12]\<rparr>]
          \<and> wordArticleCount w'
              = [\<lparr>WordArticleCount.word = ''hello'', WordArticleCount.articleId = ''2'',
                  count = 3\<rparr>]"
    unfolding indexed_other_index indexed_other_count by blast
  from processArticle_without_words [OF e indexed_prisma, of "''1''"]
  have b: "\<exists>w'. processArticle ''1'' '''' indexed_world = (Inr (), w')
          \<and> wordIndex w'
              = [\<lparr>WordIndex.articleId = ''2'', WordIndex.word = ''hello'', positions = [0, 6, 12]\<rparr>]
          \<and> wordArticleCount w'
              = [\<lparr>WordArticleCount.word = ''hello'', WordArticleCount.articleId = ''2'',
                  count = 3\<rparr>]"
    unfolding indexed_other_index indexed_other_count by blast
  from punct_nonword e indexed_prisma a b show ?thesis by blast
qed


section \<open>Failures of the cache and of the store\<close>

lemma findWords_store_path:
  assumes miss: "\<not> truthy (fst (getCachedResult (findWords_cacheKey ws) w))"
  shows "findWords ws w =
     (case pRetry retries (findMany (map toLowerCase (sort ws))) (snd (getCachedResult (findWords_cacheKey ws) w)) of
        (Inl e, w2) \<Rightarrow> (Inl e, log_entry (Err e ''Error in findWords'') w2, sort ws)
      | (Inr wordIndexes, w2) \<Rightarrow>
          (Inr (JFindWords (format_results wordIndexes (map toLowerCase (sort ws)) [])),
           setCachedResult (findWords_cacheKey ws)
             (JFindWords (format_results wordIndexes (map toLowerCase (sort ws)) [])) w2,
           sort ws))"
  using miss
  by (cases "getCachedResult (findWords_cacheKey ws) w")
     (simp add: findWords_def Let_def split: prod.splits sum.splits)

lemma getMostCommonWordArticle_store_path:
  assumes miss: "\<not> truthy (fst (getCachedResult (mostCommon_cacheKey wd) w))"
  shows "getMostCommonWordArticle wd w =
     (case pRetry retries (findFirst (toLowerCase wd)) (snd (getCachedResult (mostCommon_cacheKey wd) w)) of
        (Inl e, w2) \<Rightarrow> (Inl e, log_entry (Err e ''Error in getMostCommonWordArticle'') w2)
      | (Inr None, w2) \<Rightarrow> (Inr JNull, w2)
      | (Inr (Some mostCommon), w2) \<Rightarrow>
          (Inr (JMostCommon (WordArticleCount.articleId mostCommon) (count mostCommon)),
           setCachedResult (mostCommon_cacheKey wd)
             (JMostCommon (WordArticleCount.articleId mostCommon) (count mostCommon)) w2))"
  using miss
  by (cases "getCachedResult (mostCommon_cacheKey wd) w")
     (simp add: getMostCommonWordArticle_def Let_def split: prod.splits sum.splits option.splits)

text \<open>
  C6. When the store rejects the query and its three retries, and the cache gave no
  result (a miss, or a failed read), \<open>findWords\<close> and
  \<open>getMostCommonWordArticle\<close> end with the store's error, and the last line they
  log is the error line of the function.
\<close>

theorem store_failure_is_raised:
  assumes "take 4 (prisma_faults w) = replicate 4 True"
  shows "(\<not> truthy (fst (getCachedResult (findWords_cacheKey ws) w)) \<longrightarrow>
            fst (findWords ws w) = Inl PrismaError
            \<and> last (logs (fst (snd (findWords ws w)))) = Err PrismaError ''Error in findWords'')
       \<and> (\<not> truthy (fst (getCachedResult (mostCommon_cacheKey wd) w)) \<longrightarrow>
            fst (getMostCommonWordArticle wd w) = Inl PrismaError
            \<and> last (logs (snd (getMostCommonWordArticle wd w)))
                = Err PrismaError ''Error in getMostCommonWordArticle'')"
proof (intro conjI impI)
  assume miss: "\<not> truthy (fst (getCachedResult (findWords_cacheKey ws) w))"
  let ?w1 = "snd (getCachedResult (findWords_cacheKey ws) w)"
  have "take 4 (prisma_faults ?w1) = replicate 4 True"
    unfolding getCachedResult_frame by (rule assms)
  from findMany_exhausted [OF this]
  have q: "pRetry retries (findMany (map toLowerCase (sort ws))) ?w1
        = (Inl PrismaError, ?w1\<lparr>prisma_faults := drop 4 (prisma_faults ?w1)\<rparr>)" .
  show "fst (findWords ws w) = Inl PrismaError"
    unfolding findWords_store_path [OF miss] q by simp
  show "last (logs (fst (snd (findWords ws w)))) = Err PrismaError ''Error in findWords''"
    unfolding findWords_store_path [OF miss] q by (simp add: log_entry_def)
next
  assume miss: "\<not> truthy (fst (getCachedResult (mostCommon_cacheKey wd) w))"
  let ?w1 = "snd (getCachedResult (mostCommon_cacheKey wd) w)"
  have "take 4 (prisma_faults ?w1) = replicate 4 True"
    unfolding getCachedResult_frame by (rule assms)
  from findFirst_exhausted [OF this]
  have q: "pRetry retries (findFirst (toLowerCase wd)) ?w1
        = (Inl PrismaError, ?w1\<lparr>prisma_faults := drop 4 (prisma_faults ?w1)\<rparr>)" .
  show "fst (getMostCommonWordArticle wd w) = Inl PrismaError"
    unfolding getMostCommonWordArticle_store_path [OF miss] q by simp
  show "last (logs (snd (getMostCommonWordArticle wd w)))
                = Err PrismaError ''Error in getMostCommonWordArticle''"
    unfolding getMostCommonWordArticle_store_path [OF miss] q by (simp add: log_entry_def)
qed

lemma store_down_prisma: "take 4 (prisma_faults store_down_world) = replicate 4 True"
  by code_simp

lemma store_down_miss1:
  "\<not> truthy (fst (getCachedResult (findWords_cacheKey [''hello'']) store_down_world))"
  by code_simp

lemma store_down_miss2:
  "\<not> truthy (fst (getCachedResult (mostCommon_cacheKey ''hello'') store_down_world))"
  by code_simp

theorem store_failure_is_raised_witness:
  "take 4 (prisma_faults store_down_world) = replicate 4 True
   \<and> \<not> truthy (fst (getCachedResult (findWords_cacheKey [''hello'']) store_down_world))
   \<and> \<not> truthy (fst (getCachedResult (mostCommon_cacheKey ''hello'') store_down_world))
   \<and> fst (findWords [''hello''] store_down_world) = Inl PrismaError
   \<and> fst (getMostCommonWordArticle ''hello'' store_down_world) = Inl PrismaError"
  using store_failure_is_raised [OF store_down_prisma, of "[''hello'']" "''hello''"]
        store_down_prisma store_down_miss1 store_down_miss2
  by blast

text \<open>
  C5. When the cache read is rejected on the first attempt and on its three retries,
  and the store answers within its retries, \<open>findWords\<close> and
  \<open>getMostCommonWordArticle\<close> return the result computed from the rows of the
  store, not an error, and the warning of the failed read is in the log.
\<close>

theorem cache_get_failure_is_a_miss:
  assumes "take 4 (redis_faults w) = replicate 4 True"
      and "take 4 (prisma_faults w) \<noteq> replicate 4 True"
  shows "fst (findWords ws w)
           = Inr (JFindWords
                    (format_results
                       (filter (\<lambda>r. WordIndex.word r \<in> set (map toLowerCase (sort ws))) (wordIndex w))
                       (map toLowerCase (sort ws)) []))
       \<and> Warn RedisError (findWords_cacheKey ws) ''Failed to get cached result after retries''
           \<in> set (logs (fst (snd (findWords ws w))))
       \<and> fst (getMostCommonWordArticle wd w)
           = Inr (case top_count (filter (\<lambda>r. WordArticleCount.word r = toLowerCase wd)
                                         (wordArticleCount w)) of
                    None \<Rightarrow> JNull
                  | Some r \<Rightarrow> JMostCommon (WordArticleCount.articleId r) (count r))
       \<and> Warn RedisError (mostCommon_cacheKey wd) ''Failed to get cached result after retries''
           \<in> set (logs (snd (getMostCommonWordArticle wd w)))"
proof (intro conjI)
  let ?k = "findWords_cacheKey ws"
  let ?w1 = "snd (getCachedResult ?k w)"
  let ?n = "map toLowerCase (sort ws)"
  have miss: "\<not> truthy (fst (getCachedResult ?k w))"
    by (simp only: getCachedResult_exhausted(1) [OF assms(1)]) simp
  have warn: "Warn RedisError ?k ''Failed to get cached result after retries'' \<in> set (logs ?w1)"
    by (rule getCachedResult_exhausted(2) [OF assms(1)])
  have "take 4 (prisma_faults ?w1) \<noteq> replicate 4 True"
    unfolding getCachedResult_frame by (rule assms(2))
  from findMany_ok [OF this, of ?n] obtain m where
    q: "pRetry retries (findMany ?n) ?w1
          = (Inr (filter (\<lambda>r. WordIndex.word r \<in> set ?n) (wordIndex ?w1)),
             ?w1\<lparr>prisma_faults := drop (Suc m) (prisma_faults ?w1)\<rparr>)"
    by blast
  have wi: "wordIndex ?w1 = wordIndex w" by (rule getCachedResult_frame)
  show "fst (findWords ws w)
           = Inr (JFindWords (format_results (filter (\<lambda>r. WordIndex.word r \<in> set ?n) (wordIndex w)) ?n []))"
    unfolding findWords_store_path [OF miss] q wi by simp
  have "Warn RedisError ?k ''Failed to get cached result after retries''
          \<in> set (logs (?w1\<lparr>prisma_faults := drop (Suc m) (prisma_faults ?w1)\<rparr>))"
    using warn by simp
  then have "Warn RedisError ?k ''Failed to get cached result after retries''
          \<in> set (logs (setCachedResult ?k
                   (JFindWords (format_results
                      (filter (\<lambda>r. WordIndex.word r \<in> set ?n) (wordIndex ?w1)) ?n []))
                   (?w1\<lparr>prisma_faults := drop (Suc m) (prisma_faults ?w1)\<rparr>)))"
    by (rule setCachedResult_keeps_log)
  then show "Warn RedisError ?k ''Failed to get cached result after retries''
           \<in> set (logs (fst (snd (findWords ws w))))"
    unfolding findWords_store_path [OF miss] q by simp
next
  let ?k = "mostCommon_cacheKey wd"
  let ?w1 = "snd (getCachedResult ?k w)"
  let ?rows = "filter (\<lambda>r. WordArticleCount.word r = toLowerCase wd) (wordArticleCount w)"
  have miss: "\<not> truthy (fst (getCachedResult ?k w))"
    by (simp only: getCachedResult_exhausted(1) [OF assms(1)]) simp
  have warn: "Warn RedisError ?k ''Failed to get cached result after retries'' \<in> set (logs ?w1)"
    by (rule getCachedResult_exhausted(2) [OF assms(1)])
  have "take 4 (prisma_faults ?w1) \<noteq> replicate 4 True"
    unfolding getCachedResult_frame by (rule assms(2))
  from findFirst_ok [OF this, of "toLowerCase wd"] obtain m where
    q: "pRetry retries (findFirst (toLowerCase wd)) ?w1
          = (Inr (top_count (filter (\<lambda>r. WordArticleCount.word r = toLowerCase wd) (wordArticleCount ?w1))),
             ?w1\<lparr>prisma_faults := drop (Suc m) (prisma_faults ?w1)\<rparr>)"
    by blast
  have wc: "wordArticleCount ?w1 = wordArticleCount w" by (rule getCachedResult_frame)
  show "fst (getMostCommonWordArticle wd w)
           = Inr (case top_count ?rows of
                    None \<Rightarrow> JNull
                  | Some r \<Rightarrow> JMostCommon (WordArticleCount.articleId r) (count r))"
    unfolding getMostCommonWordArticle_store_path [OF miss] q wc
    by (simp split: option.splits)
  have "Warn RedisError ?k ''Failed to get cached result after retries''
          \<in> set (logs (?w1\<lparr>prisma_faults := drop (Suc m) (prisma_faults ?w1)\<rparr>))"
    using warn by simp
  then show "Warn RedisError ?k ''Failed to get cached result after retries''
           \<in> set (logs (snd (getMostCommonWordArticle wd w)))"
    unfolding getMostCommonWordArticle_store_path [OF miss] q
    by (simp add: setCachedResult_keeps_log split: option.splits)
qed


lemma cache_down_redis: "take 4 (redis_faults cache_down_world) = replicate 4 True"
  by code_simp

lemma cache_down_prisma: "take 4 (prisma_faults cache_down_world) \<noteq> replicate 4 True"
  by code_simp

lemma cache_down_rows:
  "format_results
     (filter (\<lambda>r. WordIndex.word r \<in> set (map toLowerCase (sort [''Hello''])))
        (wordIndex cache_down_world))
     (map toLowerCase (sort [''Hello''])) []
   = [(''hello'', [\<lparr>article_id = ''1'', offsets = [0, 13]\<rparr>,
                   \<lparr>article_id = ''2'', offsets = [0, 6, 12]\<rparr>])]"
  by code_simp

lemma cache_down_top:
  "(case top_count (filter (\<lambda>r. WordArticleCount.word r = toLowerCase ''Hello'')
                                         (wordArticleCount cache_down_world)) of
                    None \<Rightarrow> JNull
                  | Some r \<Rightarrow> JMostCommon (WordArticleCount.articleId r) (count r))
   = JMostCommon ''2'' 3"
  by code_simp

theorem cache_get_failure_is_a_miss_witness:
  "take 4 (redis_faults cache_down_world) = replicate 4 True
   \<and> take 4 (prisma_faults cache_down_world) \<noteq> replicate 4 True
   \<and> fst (findWords [''Hello''] cache_down_world)
       = Inr (JFindWords [(''hello'', [\<lparr>article_id = ''1'', offsets = [0, 13]\<rparr>,
                                       \<lparr>article_id = ''2'', offsets = [0, 6, 12]\<rparr>])])
   \<and> fst (getMostCommonWordArticle ''Hello'' cache_down_world) = Inr (JMostCommon ''2'' 3)"
  using cache_get_failure_is_a_miss [OF cache_down_redis cache_down_prisma, of "[''Hello'']" "''Hello''"]
        cache_down_redis cache_down_prisma
  unfolding cache_down_rows cache_down_top by blast

section \<open>The most common article of a word\<close>

lemma highest_in: "highest b rs \<in> set (b # rs)"
  by (induction b rs rule: highest.induct) auto

lemma highest_ge_best: "count b \<le> count (highest b rs)"
proof (induction b rs rule: highest.induct)
  case (1 best)
  show ?case by simp
next
  case (2 best r rs)
  then show ?case by (simp split: if_splits)
qed

lemma highest_max: "r' \<in> set (b # rs) \<Longrightarrow> count r' \<le> count (highest b rs)"
proof (induction b rs arbitrary: r' rule: highest.induct)
  case (1 best)
  then show ?case by simp
next
  case (2 best r rs)
  let ?b = "if count best < count r then r else best"
  have ge: "count ?b \<le> count (highest ?b rs)" by (rule highest_ge_best)
  from "2.prems" consider "r' = best" | "r' = r" | "r' \<in> set rs" by auto
  then show ?case
  proof cases
    case 1
    with ge show ?thesis by (simp split: if_splits)
  next
    case 2
    with ge show ?thesis by (simp split: if_splits)
  next
    case 3
    then have "r' \<in> set (?b # rs)" by simp
    from "2.IH" [OF this] show ?thesis by simp
  qed
qed

lemma top_count_None: "top_count rs = None \<longleftrightarrow> rs = []"
  by (cases rs) (simp_all add: top_count_def)

lemma top_count_Some:
  assumes "top_count rs = Some r"
  shows "r \<in> set rs \<and> (\<forall>r' \<in> set rs. count r' \<le> count r)"
proof (cases rs)
  case Nil
  with assms show ?thesis by (simp add: top_count_def)
next
  case (Cons b rs')
  with assms have r: "r = highest b rs'" by (simp add: top_count_def)
  have "r \<in> set rs" unfolding r Cons by (rule highest_in)
  moreover have "\<forall>r' \<in> set rs. count r' \<le> count r"
    unfolding r Cons using highest_max by blast
  ultimately show ?thesis by blast
qed


text \<open>
  C7. On a cache miss, with a store that answers within the retries: when the store
  has no \<open>WordArticleCount\<close> row of the lowercased word,
  \<open>getMostCommonWordArticle\<close> returns \<open>null\<close>, leaves the cache as it was and sends
  Redis nothing but the read of its key; when there are rows and Redis does not
  reject, it returns \<open>{article_id, count}\<close> of a row of the greatest count and the
  cache holds that value under the key, with a time to live of 600 seconds.
\<close>

theorem getMostCommonWordArticle_on_miss:
  assumes "cache_miss (mostCommon_cacheKey wd) w"
      and "take 4 (prisma_faults w) \<noteq> replicate 4 True"
  shows "(filter (\<lambda>r. WordArticleCount.word r = toLowerCase wd) (wordArticleCount w) = [] \<longrightarrow>
            fst (getMostCommonWordArticle wd w) = Inr JNull
            \<and> cache (snd (getMostCommonWordArticle wd w)) = cache w
            \<and> (\<forall>c \<in> set (issued w (snd (getMostCommonWordArticle wd w))).
                  c = Get (mostCommon_cacheKey wd)))
       \<and> (filter (\<lambda>r. WordArticleCount.word r = toLowerCase wd) (wordArticleCount w) \<noteq> []
            \<and> True \<notin> set (redis_faults w) \<longrightarrow>
            (\<exists>r \<in> set (filter (\<lambda>r. WordArticleCount.word r = toLowerCase wd) (wordArticleCount w)).
               (\<forall>r' \<in> set (filter (\<lambda>r. WordArticleCount.word r = toLowerCase wd)
                                   (wordArticleCount w)).
                   count r' \<le> count r)
               \<and> fst (getMostCommonWordArticle wd w)
                   = Inr (JMostCommon (WordArticleCount.articleId r) (count r))
               \<and> cache (snd (getMostCommonWordArticle wd w))
                   = (cache w)(mostCommon_cacheKey wd \<mapsto>
                        (Value (JMostCommon (WordArticleCount.articleId r) (count r)), 600))))"
proof -
  let ?k = "mostCommon_cacheKey wd"
  let ?w1 = "snd (getCachedResult ?k w)"
  let ?rows = "filter (\<lambda>r. WordArticleCount.word r = toLowerCase wd) (wordArticleCount w)"
  have miss: "\<not> truthy (fst (getCachedResult ?k w))"
    by (simp add: getCachedResult_miss [OF assms(1)])
  have "take 4 (prisma_faults ?w1) \<noteq> replicate 4 True"
    unfolding getCachedResult_frame by (rule assms(2))
  from findFirst_ok [OF this, of "toLowerCase wd"] obtain m where
    q0: "pRetry retries (findFirst (toLowerCase wd)) ?w1
          = (Inr (top_count (filter (\<lambda>r. WordArticleCount.word r = toLowerCase wd)
                                    (wordArticleCount ?w1))),
             ?w1\<lparr>prisma_faults := drop (Suc m) (prisma_faults ?w1)\<rparr>)"
    by blast
  let ?w2 = "?w1\<lparr>prisma_faults := drop (Suc m) (prisma_faults ?w1)\<rparr>"
  have q: "pRetry retries (findFirst (toLowerCase wd)) ?w1 = (Inr (top_count ?rows), ?w2)"
    using q0 unfolding getCachedResult_frame .
  have cache2: "cache ?w2 = cache w" by (simp add: getCachedResult_frame)
  from getCachedResult_calls [of ?k w] obtain cs where
    cs: "redis_calls ?w1 = redis_calls w @ cs" "set cs \<subseteq> {Get ?k}" by blast
  have issued2: "issued w ?w2 = cs" using cs(1) by (simp add: issued_def)
  have none: "?rows = [] \<longrightarrow>
            fst (getMostCommonWordArticle wd w) = Inr JNull
            \<and> cache (snd (getMostCommonWordArticle wd w)) = cache w
            \<and> (\<forall>c \<in> set (issued w (snd (getMostCommonWordArticle wd w))). c = Get ?k)"
  proof
    assume "?rows = []"
    then have t: "top_count ?rows = None" by (simp add: top_count_None)
    have g: "getMostCommonWordArticle wd w = (Inr JNull, ?w2)"
      unfolding getMostCommonWordArticle_store_path [OF miss] q t by simp
    show "fst (getMostCommonWordArticle wd w) = Inr JNull
            \<and> cache (snd (getMostCommonWordArticle wd w)) = cache w
            \<and> (\<forall>c \<in> set (issued w (snd (getMostCommonWordArticle wd w))). c = Get ?k)"
      unfolding g using cache2 issued2 cs(2) by auto
  qed
  have some: "?rows \<noteq> [] \<and> True \<notin> set (redis_faults w) \<longrightarrow>
            (\<exists>r \<in> set ?rows.
               (\<forall>r' \<in> set ?rows. count r' \<le> count r)
               \<and> fst (getMostCommonWordArticle wd w)
                   = Inr (JMostCommon (WordArticleCount.articleId r) (count r))
               \<and> cache (snd (getMostCommonWordArticle wd w))
                   = (cache w)(?k \<mapsto>
                        (Value (JMostCommon (WordArticleCount.articleId r) (count r)), 600)))"
  proof
    assume a: "?rows \<noteq> [] \<and> True \<notin> set (redis_faults w)"
    then obtain r where t: "top_count ?rows = Some r"
      using top_count_None [of ?rows] by (cases "top_count ?rows") auto
    from top_count_Some [OF t] have r: "r \<in> set ?rows" "\<forall>r' \<in> set ?rows. count r' \<le> count r"
      by blast+
    let ?res = "JMostCommon (WordArticleCount.articleId r) (count r)"
    have "True \<notin> set (redis_faults ?w1)" using a by (simp add: getCachedResult_healthy)
    then have "\<not> rejects (redis_faults ?w2)" by (simp add: healthy_not_rejects)
    from setCachedResult_healthy [OF this, of ?k ?res]
    have s: "cache (setCachedResult ?k ?res ?w2) = (cache w)(?k \<mapsto> (Value ?res, 600))"
      by (simp add: redis_call_def getCachedResult_frame)
    have g: "getMostCommonWordArticle wd w = (Inr ?res, setCachedResult ?k ?res ?w2)"
      unfolding getMostCommonWordArticle_store_path [OF miss] q t by simp
    have "fst (getMostCommonWordArticle wd w) = Inr ?res
          \<and> cache (snd (getMostCommonWordArticle wd w)) = (cache w)(?k \<mapsto> (Value ?res, 600))"
      unfolding g using s by simp
    with r show "\<exists>r \<in> set ?rows.
               (\<forall>r' \<in> set ?rows. count r' \<le> count r)
               \<and> fst (getMostCommonWordArticle wd w)
                   = Inr (JMostCommon (WordArticleCount.articleId r) (count r))
               \<and> cache (snd (getMostCommonWordArticle wd w))
                   = (cache w)(?k \<mapsto>
                        (Value (JMostCommon (WordArticleCount.articleId r) (count r)), 600))"
      by blast
  qed
  from none some show ?thesis by blast
qed


lemma indexed_miss_nonexistent: "cache_miss (mostCommon_cacheKey ''nonexistent'') indexed_world"
  by code_simp

lemma indexed_miss_hello: "cache_miss (mostCommon_cacheKey ''Hello'') indexed_world"
  by code_simp

lemma indexed_no_rows:
  "filter (\<lambda>r. WordArticleCount.word r = toLowerCase ''nonexistent'')
     (wordArticleCount indexed_world) = []"
  by code_simp

lemma indexed_hello_rows:
  "filter (\<lambda>r. WordArticleCount.word r = toLowerCase ''Hello'') (wordArticleCount indexed_world)
     = [\<lparr>WordArticleCount.word = ''hello'', WordArticleCount.articleId = ''1'', count = 2\<rparr>,
        \<lparr>WordArticleCount.word = ''hello'', WordArticleCount.articleId = ''2'', count = 3\<rparr>]"
  by code_simp

lemma indexed_healthy: "True \<notin> set (redis_faults indexed_world)"
  by code_simp

lemma indexed_hello_key: "mostCommon_cacheKey ''Hello'' = ''most-common-word:hello''"
  by code_simp

theorem getMostCommonWordArticle_on_miss_witness:
  "cache_miss (mostCommon_cacheKey ''nonexistent'') indexed_world
   \<and> cache_miss (mostCommon_cacheKey ''Hello'') indexed_world
   \<and> take 4 (prisma_faults indexed_world) \<noteq> replicate 4 True
   \<and> True \<notin> set (redis_faults indexed_world)
   \<and> fst (getMostCommonWordArticle ''nonexistent'' indexed_world) = Inr JNull
   \<and> cache (snd (getMostCommonWordArticle ''nonexistent'' indexed_world)) = cache indexed_world
   \<and> fst (getMostCommonWordArticle ''Hello'' indexed_world) = Inr (JMostCommon ''2'' 3)
   \<and> cache (snd (getMostCommonWordArticle ''Hello'' indexed_world)) ''most-common-word:hello''
       = Some (Value (JMostCommon ''2'' 3), 600)"
proof -
  from getMostCommonWordArticle_on_miss [OF indexed_miss_nonexistent indexed_prisma] indexed_no_rows
  have a: "fst (getMostCommonWordArticle ''nonexistent'' indexed_world) = Inr JNull
           \<and> cache (snd (getMostCommonWordArticle ''nonexistent'' indexed_world)) = cache indexed_world"
    by blast
  let ?rows = "[\<lparr>WordArticleCount.word = ''hello'', WordArticleCount.articleId = ''1'', count = 2\<rparr>,
        \<lparr>WordArticleCount.word = ''hello'', WordArticleCount.articleId = ''2'', count = 3\<rparr>]"
  have ne: "?rows \<noteq> []" by simp
  from getMostCommonWordArticle_on_miss [OF indexed_miss_hello indexed_prisma]
  have "?rows \<noteq> [] \<and> True \<notin> set (redis_faults indexed_world) \<longrightarrow>
        (\<exists>r \<in> set ?rows. (\<forall>r' \<in> set ?rows. count r' \<le> count r)
           \<and> fst (getMostCommonWordArticle ''Hello'' indexed_world)
               = Inr (JMostCommon (WordArticleCount.articleId r) (count r))
           \<and> cache (snd (getMostCommonWordArticle ''Hello'' indexed_world))
               = (cache indexed_world)(''most-common-word:hello'' \<mapsto>
                    (Value (JMostCommon (WordArticleCount.articleId r) (count r)), 600)))"
    unfolding indexed_hello_rows indexed_hello_key by blast
  with ne indexed_healthy obtain r where
    r: "r \<in> set ?rows" "\<forall>r' \<in> set ?rows. count r' \<le> count r"
       "fst (getMostCommonWordArticle ''Hello'' indexed_world)
               = Inr (JMostCommon (WordArticleCount.articleId r) (count r))"
       "cache (snd (getMostCommonWordArticle ''Hello'' indexed_world))
               = (cache indexed_world)(''most-common-word:hello'' \<mapsto>
                    (Value (JMostCommon (WordArticleCount.articleId r) (count r)), 600))"
    by blast
  from r(1,2) have "WordArticleCount.articleId r = ''2'' \<and> count r = 3" by auto
  with r(3,4) have b: "fst (getMostCommonWordArticle ''Hello'' indexed_world) = Inr (JMostCommon ''2'' 3)
    \<and> cache (snd (getMostCommonWordArticle ''Hello'' indexed_world)) ''most-common-word:hello''
       = Some (Value (JMostCommon ''2'' 3), 600)"
    by simp
  from indexed_miss_nonexistent indexed_miss_hello indexed_prisma indexed_healthy a b
  show ?thesis by blast
qed

section \<open>The positional map against the tokenizer of the specification\<close>

lemma word_unit_is_constituent: "is_word_unit c \<Longrightarrow> is_word_constituent c"
  by (auto simp: is_word_constituent_def is_letter_def is_word_unit_def Let_def)

lemma ascii_constituent_is_word_unit:
  "(of_char c :: nat) < 128 \<Longrightarrow> is_word_constituent c = is_word_unit c"
  by (auto simp: is_word_constituent_def is_letter_def is_word_unit_def Let_def)

lemma ascii_letters_only_ascii:
  "list_all (\<lambda>c. (of_char c :: nat) < 128) s \<Longrightarrow> ascii_letters_only s"
  by (induction s) (simp_all add: ascii_letters_only_def ascii_constituent_is_word_unit)

lemma lower_unit_word: "is_word_unit (lower_unit c) = is_word_unit c"
proof (cases "is_upper_unit c")
  case False
  then show ?thesis by (simp add: lower_unit_def)
next
  case True
  let ?n = "of_char c :: nat"
  from True have r: "(65 \<le> ?n \<and> ?n \<le> 90) \<or> (192 \<le> ?n \<and> ?n \<le> 222)"
    by (auto simp: is_upper_unit_def Let_def)
  then have "(?n + 32) mod 256 = ?n + 32" by auto
  then have "(of_char (char_of (?n + 32)) :: nat) = ?n + 32" by simp
  with True r show ?thesis by (auto simp: lower_unit_def is_word_unit_def Let_def)
qed

lemma split_boundary_first:
  "\<exists>seg segs. split_boundary (x # xs) = seg # segs \<and> seg \<noteq> []
       \<and> list_all (\<lambda>y. is_word_unit y = is_word_unit x) seg"
proof (induction xs arbitrary: x)
  case Nil
  show ?case by simp
next
  case (Cons d cs)
  from Cons [of d] obtain seg segs where
    s: "split_boundary (d # cs) = seg # segs" "seg \<noteq> []"
       "list_all (\<lambda>y. is_word_unit y = is_word_unit d) seg"
    by blast
  show ?case
  proof (cases "is_word_unit x = is_word_unit d")
    case True
    with s show ?thesis by simp
  next
    case False
    then show ?thesis by simp
  qed
qed

lemma test_word_same_class:
  "seg \<noteq> [] \<Longrightarrow> list_all (\<lambda>y. is_word_unit y = is_word_unit x) seg
     \<Longrightarrow> test_word seg = is_word_unit x"
  by (cases seg) (auto simp: test_word_def list_all_iff)

lemma length_toLowerCase: "length (toLowerCase s) = length s"
  by (simp add: toLowerCase_def)

lemma toLowerCase_Cons: "toLowerCase (c # cs) = lower_unit c # toLowerCase cs"
  by (simp add: toLowerCase_def)

lemma pieces_are_spec_tokens:
  "ascii_letters_only s \<Longrightarrow>
     piece_tokens (split_boundary (toLowerCase s)) pos = spec_tokens s pos"
proof (induction s arbitrary: pos rule: split_boundary.induct)
  case 1
  show ?case by (simp add: toLowerCase_def test_word_def)
next
  case (2 c)
  then have "is_word_constituent c = is_word_unit c" by (simp add: ascii_letters_only_def)
  then show ?case
    by (simp add: toLowerCase_def test_word_def lower_unit_word)
next
  case (3 c d cs)
  from "3.prems" have ac: "is_word_constituent c = is_word_unit c"
    and ad: "is_word_constituent d = is_word_unit d"
    and rest: "ascii_letters_only (d # cs)"
    by (simp_all add: ascii_letters_only_def)
  let ?lc = "lower_unit c" and ?ld = "lower_unit d" and ?lcs = "toLowerCase cs"
  have low: "toLowerCase (c # d # cs) = ?lc # ?ld # ?lcs" "toLowerCase (d # cs) = ?ld # ?lcs"
    by (simp_all add: toLowerCase_def)
  from split_boundary_first [of ?ld ?lcs] obtain seg segs where
    s: "split_boundary (?ld # ?lcs) = seg # segs" "seg \<noteq> []"
       "list_all (\<lambda>y. is_word_unit y = is_word_unit ?ld) seg"
    by blast
  have tw: "test_word seg = is_word_unit d"
    using test_word_same_class [OF s(2,3)] by (simp add: lower_unit_word)
  have ih: "piece_tokens (seg # segs) pos = spec_tokens (d # cs) pos" for pos
    using "3.IH" [of pos] rest unfolding low s(1) by blast
  show ?case
  proof (cases "is_word_unit c = is_word_unit d")
    case False
    then have sp: "split_boundary (?lc # ?ld # ?lcs) = [?lc] # seg # segs"
      using s(1) by (simp add: lower_unit_word)
    have "piece_tokens ([?lc] # seg # segs) pos
            = (if is_word_unit c then [([?lc], pos)] else []) @ spec_tokens (d # cs) (pos + 1)"
      using ih [of "pos + 1"] by (simp add: test_word_def lower_unit_word)
    also have "\<dots> = spec_tokens (c # d # cs) pos"
      using False by (auto simp: ac ad toLowerCase_def)
    finally show ?thesis unfolding low sp .
  next
    case True
    then have sp: "split_boundary (?lc # ?ld # ?lcs) = (?lc # seg) # segs"
      using s(1) by (simp add: lower_unit_word)
    have tw': "test_word (?lc # seg) = is_word_unit d"
      using tw True by (auto simp: test_word_def lower_unit_word)
    show ?thesis
    proof (cases "is_word_unit d")
      case False
      have "piece_tokens ((?lc # seg) # segs) pos = piece_tokens segs (pos + 1 + length seg)"
        using tw' False by (simp add: add.assoc)
      also have "\<dots> = piece_tokens (seg # segs) (pos + 1)"
        using tw False by (simp add: add.assoc)
      also have "\<dots> = spec_tokens (d # cs) (pos + 1)" by (rule ih)
      also have "\<dots> = spec_tokens (c # d # cs) pos"
        using True False by (simp add: ac ad)
      finally show ?thesis unfolding low sp .
    next
      case d: True
      with True have c: "is_word_unit c" by simp
      have wd: "is_word_constituent d" "is_word_constituent c"
        using c d by (simp_all add: ac ad)
      let ?R = "takeWhile is_word_constituent cs" and ?D = "dropWhile is_word_constituent cs"
      have sd: "spec_tokens (d # cs) (pos + 1)
                  = (?ld # toLowerCase ?R, pos + 1) # spec_tokens ?D (pos + 2 + length ?R)"
        using wd by (simp add: toLowerCase_Cons)
      have sc: "spec_tokens (c # d # cs) pos
                  = (?lc # ?ld # toLowerCase ?R, pos) # spec_tokens ?D (pos + 2 + length ?R)"
        using wd by (simp add: toLowerCase_Cons)
      have pd: "piece_tokens (seg # segs) (pos + 1)
                  = (seg, pos + 1) # piece_tokens segs (pos + 1 + length seg)"
        using tw d by simp
      from ih [of "pos + 1"] sd pd have eq: "seg = ?ld # toLowerCase ?R"
        "piece_tokens segs (pos + 1 + length seg) = spec_tokens ?D (pos + 2 + length ?R)"
        by simp_all
      have "piece_tokens ((?lc # seg) # segs) pos
              = (?lc # seg, pos) # piece_tokens segs (pos + 1 + length seg)"
        using tw' d by (simp add: add.assoc)
      also have "\<dots> = spec_tokens (c # d # cs) pos"
        unfolding sc using eq by simp
      finally show ?thesis unfolding low sp .
    qed
  qed
qed

lemma proto_inherited: "''__proto__'' \<in> set object_prototype_keys"
  by (simp add: object_prototype_keys_def)

lemma index_step:
  assumes own: "obj_get (if obj_get wp wd = Undefined then obj_set wp wd [] else wp) wd = Own ps"
    and inv: "map_of wp ''__proto__'' = None"
  shows "map_of (obj_set (if obj_get wp wd = Undefined then obj_set wp wd [] else wp) wd
                   (ps @ [pos]))
           = (map_of wp)(wd \<mapsto> (case map_of wp wd of None \<Rightarrow> [] | Some qs \<Rightarrow> qs) @ [pos])"
proof -
  have ne: "wd \<noteq> ''__proto__''"
  proof
    assume "wd = ''__proto__''"
    with inv proto_inherited have "obj_get wp wd = Inherited" by (simp add: obj_get_def)
    with own show False by simp
  qed
  show ?thesis
  proof (cases "obj_get wp wd = Undefined")
    case True
    then have none: "map_of wp wd = None" by (auto simp: obj_get_def split: option.splits)
    from own True ne have "ps = []"
      by (simp add: obj_set_def obj_get_def update_conv')
    with True ne none show ?thesis by (simp add: obj_set_def update_conv')
  next
    case False
    with own have "map_of wp wd = Some ps"
      by (auto simp: obj_get_def split: option.splits if_splits)
    with False ne show ?thesis by (simp add: obj_set_def update_conv')
  qed
qed

lemma index_words_map:
  "index_words ws wp pos = Inr wp' \<Longrightarrow> map_of wp ''__proto__'' = None \<Longrightarrow>
     map_of wp' k
       = (if map snd (filter (\<lambda>t. fst t = k) (piece_tokens ws pos)) = [] then map_of wp k
          else Some ((case map_of wp k of None \<Rightarrow> [] | Some qs \<Rightarrow> qs)
                     @ map snd (filter (\<lambda>t. fst t = k) (piece_tokens ws pos))))"
proof (induction ws wp pos rule: index_words.induct)
  case (1 wordPositions position)
  then show ?case by simp
next
  case (2 wd ws wordPositions position)
  show ?case
  proof (cases "test_word wd")
    case False
    with 2 show ?thesis by simp
  next
    case True
    let ?wp = "if obj_get wordPositions wd = Undefined
               then obj_set wordPositions wd [] else wordPositions"
    show ?thesis
    proof (cases "obj_get ?wp wd")
      case (Own ps)
      let ?wp2 = "obj_set ?wp wd (ps @ [position])"
      have run: "index_words ws ?wp2 (position + length wd) = Inr wp'"
        using "2.prems"(1) True Own by (simp add: Let_def)
      have m2: "map_of ?wp2
                = (map_of wordPositions)(wd \<mapsto>
                     (case map_of wordPositions wd of None \<Rightarrow> [] | Some qs \<Rightarrow> qs) @ [position])"
        using Own "2.prems"(2) by (rule index_step)
      have ne: "wd \<noteq> ''__proto__''"
      proof
        assume "wd = ''__proto__''"
        with "2.prems"(2) proto_inherited have "obj_get wordPositions wd = Inherited"
          by (simp add: obj_get_def)
        with Own show False by simp
      qed
      have inv2: "map_of ?wp2 ''__proto__'' = None"
        unfolding m2 using ne "2.prems"(2) by simp
      have pt: "piece_tokens (wd # ws) position
                  = (wd, position) # piece_tokens ws (position + length wd)"
        using True by simp
      from "2.IH"(1) [OF True refl Own run inv2]
      have ih: "map_of wp' k
       = (if map snd (filter (\<lambda>t. fst t = k) (piece_tokens ws (position + length wd))) = []
          then map_of ?wp2 k
          else Some ((case map_of ?wp2 k of None \<Rightarrow> [] | Some qs \<Rightarrow> qs)
                     @ map snd (filter (\<lambda>t. fst t = k)
                                  (piece_tokens ws (position + length wd)))))" .
      show ?thesis
        unfolding ih pt m2 by (cases "k = wd") simp_all
    next
      case Inherited
      with "2.prems"(1) True show ?thesis by (simp add: Let_def)
    next
      case Undefined
      with "2.prems"(1) True show ?thesis by (simp add: Let_def)
    qed
  qed
qed

lemma index_words_error:
  "index_words ws wp pos = Inl e \<Longrightarrow>
     e = TypeError
     \<and> (\<exists>t \<in> set (piece_tokens ws pos). fst t \<in> set object_prototype_keys)"
proof (induction ws wp pos rule: index_words.induct)
  case (1 wordPositions position)
  then show ?case by simp
next
  case (2 wd ws wordPositions position)
  show ?case
  proof (cases "test_word wd")
    case False
    with 2 show ?thesis by simp
  next
    case True
    let ?wp = "if obj_get wordPositions wd = Undefined
               then obj_set wordPositions wd [] else wordPositions"
    show ?thesis
    proof (cases "obj_get ?wp wd")
      case (Own ps)
      with "2.prems" True
      have "index_words ws (obj_set ?wp wd (ps @ [position])) (position + length wd) = Inl e"
        by (simp add: Let_def)
      from "2.IH"(1) [OF True refl Own this] True show ?thesis by simp
    next
      case Inherited
      then have "wd \<in> set object_prototype_keys"
        by (auto simp: obj_get_def obj_set_def update_conv' split: if_splits option.splits)
      with "2.prems" True Inherited show ?thesis by (simp add: Let_def)
    next
      case Undefined
      then have False
        using proto_inherited
        by (auto simp: obj_get_def obj_set_def update_conv' split: if_splits option.splits)
      then show ?thesis ..
    qed
  qed
qed

lemma word_positions_refines_spec:
  assumes "ascii_letters_only content"
  shows "(case word_positions content of
      Inr wordPositions \<Rightarrow> map_of wordPositions = spec_word_map content
    | Inl e \<Rightarrow>
        e = TypeError
        \<and> (\<exists>t \<in> set (spec_tokens content 0). fst t \<in> set object_prototype_keys))"
proof (cases "word_positions content")
  case (Inl e)
  then have "index_words (split_boundary (toLowerCase content)) [] 0 = Inl e"
    by (simp add: word_positions_def)
  from index_words_error [OF this] Inl show ?thesis
    by (simp add: pieces_are_spec_tokens [OF assms])
next
  case (Inr wp)
  then have run: "index_words (split_boundary (toLowerCase content)) [] 0 = Inr wp"
    by (simp add: word_positions_def)
  have "map_of wp k = spec_word_map content k" for k
    using index_words_map [OF run, of k]
    by (simp add: pieces_are_spec_tokens [OF assms] spec_word_map_def Let_def)
  with Inr show ?thesis by (simp add: fun_eq_iff)
qed

section \<open>findWords on a cache miss\<close>

lemma format_results_other:
  "wd \<notin> set ws \<Longrightarrow> map_of (format_results rows ws acc) wd = map_of acc wd"
  by (induction ws arbitrary: acc) (auto simp: obj_set_def update_conv')

lemma format_results_proto:
  "map_of (format_results rows ws acc) ''__proto__'' = map_of acc ''__proto__''"
  by (induction ws arbitrary: acc) (auto simp: obj_set_def update_conv')

lemma format_results_lookup:
  "wd \<in> set ws \<Longrightarrow> wd \<noteq> ''__proto__'' \<Longrightarrow>
     map_of (format_results rows ws acc) wd
       = Some (map to_hit (filter (\<lambda>i. WordIndex.word i = wd) rows))"
proof (induction ws arbitrary: acc)
  case Nil
  then show ?case by simp
next
  case (Cons x ws)
  show ?case
  proof (cases "wd \<in> set ws")
    case True
    from Cons.IH [OF True Cons.prems(2)] show ?thesis by simp
  next
    case False
    with Cons.prems have x: "x = wd" by simp
    with False Cons.prems(2) show ?thesis
      by (simp add: format_results_other obj_set_def update_conv')
  qed
qed

lemma findWords_on_miss:
  assumes "cache_miss (findWords_cacheKey ws) w"
      and "take 4 (prisma_faults w) \<noteq> replicate 4 True"
  shows "\<exists>results. fst (findWords ws w) = Inr (JFindWords results)
           \<and> (\<forall>wd \<in> set ws. toLowerCase wd \<noteq> ''__proto__'' \<longrightarrow>
                 map_of results (toLowerCase wd)
                   = Some (map to_hit (filter (\<lambda>i. WordIndex.word i = toLowerCase wd)
                                              (wordIndex w))))
           \<and> map_of results ''__proto__'' = None
           \<and> (True \<notin> set (redis_faults w) \<longrightarrow>
                 cache (fst (snd (findWords ws w)))
                   = (cache w)(findWords_cacheKey ws \<mapsto> (Value (JFindWords results), 600)))"
proof -
  let ?k = "findWords_cacheKey ws"
  let ?w1 = "snd (getCachedResult ?k w)"
  let ?n = "map toLowerCase (sort ws)"
  have miss: "\<not> truthy (fst (getCachedResult ?k w))"
    by (simp add: getCachedResult_miss [OF assms(1)])
  have "take 4 (prisma_faults ?w1) \<noteq> replicate 4 True"
    unfolding getCachedResult_frame by (rule assms(2))
  from findMany_ok [OF this, of ?n] obtain m where
    q0: "pRetry retries (findMany ?n) ?w1
          = (Inr (filter (\<lambda>r. WordIndex.word r \<in> set ?n) (wordIndex ?w1)),
             ?w1\<lparr>prisma_faults := drop (Suc m) (prisma_faults ?w1)\<rparr>)"
    by blast
  let ?w2 = "?w1\<lparr>prisma_faults := drop (Suc m) (prisma_faults ?w1)\<rparr>"
  let ?rows = "filter (\<lambda>r. WordIndex.word r \<in> set ?n) (wordIndex w)"
  let ?res = "format_results ?rows ?n []"
  have q: "pRetry retries (findMany ?n) ?w1 = (Inr ?rows, ?w2)"
    using q0 unfolding getCachedResult_frame .
  have g: "findWords ws w = (Inr (JFindWords ?res), setCachedResult ?k (JFindWords ?res) ?w2, sort ws)"
    unfolding findWords_store_path [OF miss] q by simp
  have look: "\<forall>wd \<in> set ws. toLowerCase wd \<noteq> ''__proto__'' \<longrightarrow>
                 map_of ?res (toLowerCase wd)
                   = Some (map to_hit (filter (\<lambda>i. WordIndex.word i = toLowerCase wd)
                                              (wordIndex w)))"
  proof (intro ballI impI)
    fix wd assume wd: "wd \<in> set ws" and ne: "toLowerCase wd \<noteq> ''__proto__''"
    from wd have in_n: "toLowerCase wd \<in> set ?n" by simp
    have "filter (\<lambda>i. WordIndex.word i = toLowerCase wd) ?rows
            = filter (\<lambda>i. WordIndex.word i = toLowerCase wd) (wordIndex w)"
      using in_n by (auto intro: filter_cong)
    with format_results_lookup [OF in_n ne, of ?rows "[]"]
    show "map_of ?res (toLowerCase wd)
            = Some (map to_hit (filter (\<lambda>i. WordIndex.word i = toLowerCase wd) (wordIndex w)))"
      by simp
  qed
  have proto: "map_of ?res ''__proto__'' = None"
    by (simp add: format_results_proto)
  have cached: "True \<notin> set (redis_faults w) \<longrightarrow>
                 cache (fst (snd (findWords ws w)))
                   = (cache w)(?k \<mapsto> (Value (JFindWords ?res), 600))"
  proof
    assume "True \<notin> set (redis_faults w)"
    then have "True \<notin> set (redis_faults ?w1)" by (simp add: getCachedResult_healthy)
    then have "\<not> rejects (redis_faults ?w2)" by (simp add: healthy_not_rejects)
    from setCachedResult_healthy [OF this, of ?k "JFindWords ?res"]
    have "cache (setCachedResult ?k (JFindWords ?res) ?w2)
            = (cache w)(?k \<mapsto> (Value (JFindWords ?res), 600))"
      by (simp add: redis_call_def getCachedResult_frame)
    then show "cache (fst (snd (findWords ws w)))
                   = (cache w)(?k \<mapsto> (Value (JFindWords ?res), 600))"
      unfolding g by simp
  qed
  have "fst (findWords ws w) = Inr (JFindWords ?res)" unfolding g by simp
  with look proto cached show ?thesis by blast
qed

section \<open>What the invalidation sends and removes\<close>

lemma transaction_frame:
  "cache (snd (transaction aid wp w)) = cache w"
  "redis_calls (snd (transaction aid wp w)) = redis_calls w"
  "redis_faults (snd (transaction aid wp w)) = redis_faults w"
  by (simp_all add: transaction_def prisma_call_def delete_rows_def
        create_rows_cache create_rows_redis_calls create_rows_redis_faults)

lemma del_all_cache:
  "True \<notin> set (redis_faults w) \<Longrightarrow>
     cache (del_all ks w) = (\<lambda>k. if k \<in> set ks then None else cache w k)"
proof (induction ks arbitrary: w)
  case Nil
  show ?case by simp
next
  case (Cons x ks)
  let ?w = "snd (redis_del x w)"
  from Cons.prems have nr: "\<not> rejects (redis_faults w)" by (rule healthy_not_rejects)
  have h: "True \<notin> set (redis_faults ?w)"
    using Cons.prems by (cases "redis_faults w") (auto simp: redis_del_def redis_call_def)
  have c: "cache ?w = (cache w)(x := None)"
    using nr by (simp add: redis_del_def redis_call_def)
  show ?case
    using Cons.IH [OF h] c by (auto simp: fun_eq_iff)
qed

lemma processArticle_invalidation:
  assumes "processArticle aid content w = (Inr u, w')"
  shows "\<exists>wp. word_positions content = Inr wp
          \<and> issued w w'
              = Del ''top-words:*'' # map (\<lambda>wd. Del (''most-common-word:'' @ wd)) (object_keys wp)
          \<and> (True \<notin> set (redis_faults w) \<longrightarrow>
                (\<forall>k. cache w' k
                       = (if k = ''top-words:*''
                             \<or> k \<in> (\<lambda>wd. ''most-common-word:'' @ wd) ` fst ` set wp
                          then None else cache w k)))"
proof -
  from assms obtain wp where wp: "word_positions content = Inr wp"
    by (cases "word_positions content") (auto simp: processArticle_def)
  obtain r w1 where t: "pRetry retries (transaction aid wp) w = (r, w1)"
    by (cases "pRetry retries (transaction aid wp) w")
  from assms wp t have w': "w' = invalidate wp w1"
    by (cases r) (auto simp: processArticle_def)
  have c1: "cache w1 = cache w"
    using pRetry_frame [of cache "transaction aid wp" retries w] t
    by (simp add: transaction_frame)
  have r1: "redis_calls w1 = redis_calls w"
    using pRetry_frame [of redis_calls "transaction aid wp" retries w] t
    by (simp add: transaction_frame)
  have f1: "redis_faults w1 = redis_faults w"
    using pRetry_frame [of redis_faults "transaction aid wp" retries w] t
    by (simp add: transaction_frame)
  let ?ks = "''top-words:*'' # map (\<lambda>wd. ''most-common-word:'' @ wd) (object_keys wp)"
  have "redis_calls w' = redis_calls w @ map Del ?ks"
    unfolding w' invalidate_def del_all_redis_calls r1 ..
  then have iss: "issued w w'
              = Del ''top-words:*'' # map (\<lambda>wd. Del (''most-common-word:'' @ wd)) (object_keys wp)"
    by (simp add: issued_def comp_def)
  have keys: "set (object_keys wp) = fst ` set wp"
    by (simp add: object_keys_def set_object_entries)
  have ch: "True \<notin> set (redis_faults w) \<longrightarrow>
                (\<forall>k. cache w' k
                       = (if k = ''top-words:*''
                             \<or> k \<in> (\<lambda>wd. ''most-common-word:'' @ wd) ` fst ` set wp
                          then None else cache w k))"
  proof
    assume "True \<notin> set (redis_faults w)"
    then have "True \<notin> set (redis_faults w1)" by (simp add: f1)
    from del_all_cache [OF this, of ?ks]
    have "cache w' = (\<lambda>k. if k \<in> set ?ks then None else cache w k)"
      unfolding w' invalidate_def c1 .
    then show "\<forall>k. cache w' k
                       = (if k = ''top-words:*''
                             \<or> k \<in> (\<lambda>wd. ''most-common-word:'' @ wd) ` fst ` set wp
                          then None else cache w k)"
      by (simp add: keys)
  qed
  from wp iss ch show ?thesis by blast
qed

section \<open>Where the code departs from the specification\<close>

text \<open>
  C2. The positional map is a plain object. For the word \<open>constructor\<close> (and for
  \<open>__proto__\<close>) the lookup \<open>wordPositions[word]\<close> finds the property inherited from
  \<open>Object.prototype\<close>, no array is stored, and \<open>push\<close> raises a \<open>TypeError\<close>:
  \<open>processArticle\<close> fails, logs the error and writes no row, where the tokenizer of
  the specification gives the word \<open>constructor\<close> at offset 4. On every content
  whose letters are \<open>A\<close> to \<open>Z\<close> and \<open>a\<close> to \<open>z\<close> and which has no such word, the
  loop builds the map of the specification (\<open>word_positions_refines_spec\<close>).
\<close>

theorem processArticle_constructor_raises:
  "fst (processArticle ''3'' ''The constructor runs first'' indexed_world) = Inl TypeError
   \<and> logs (snd (processArticle ''3'' ''The constructor runs first'' indexed_world))
       = [Err TypeError ''Error in processArticle'']
   \<and> filter (\<lambda>r. WordIndex.articleId r = ''3'')
         (wordIndex (snd (processArticle ''3'' ''The constructor runs first'' indexed_world)))
       = []
   \<and> spec_word_map ''The constructor runs first'' ''constructor'' = Some [4]"
  by code_simp

text \<open>
  C8. The result of \<open>findWords\<close> is a plain object too. The assignment
  \<open>results["__proto__"] = ...\<close> creates no own property, so the result for the query
  \<open>["__proto__"]\<close> has no key at all, and this empty object is what is cached. Every
  other queried word has its key, with the hits of the store or the empty sequence,
  and the result is cached for 600 seconds (\<open>findWords_on_miss\<close>).
\<close>

theorem findWords_proto_key_missing:
  "fst (findWords [''__proto__''] indexed_world) = Inr (JFindWords [])
   \<and> cache (fst (snd (findWords [''__proto__''] indexed_world))) ''find-words:__proto__''
       = Some (Value (JFindWords []), 600)"
  by code_simp

text \<open>
  C4. After a successful indexing \<open>processArticle\<close> sends \<open>DEL top-words:*\<close> and
  \<open>DEL most-common-word:<word>\<close> for each word of the article
  (\<open>processArticle_invalidation\<close>). The first names one key, the key
  \<open>top-words:*\<close>: the entry cached under \<open>top-words:10\<close> is still there afterwards.
\<close>

theorem processArticle_leaves_top_words:
  "fst (processArticle ''3'' ''hello'' stale_world) = Inr ()
   \<and> issued stale_world (snd (processArticle ''3'' ''hello'' stale_world))
       = [Del ''top-words:*'', Del ''most-common-word:hello'']
   \<and> cache (snd (processArticle ''3'' ''hello'' stale_world)) ''most-common-word:hello'' = None
   \<and> cache (snd (processArticle ''3'' ''hello'' stale_world)) ''top-words:10''
       = Some (Value (JFindWords []), 600)"
  by code_simp


end
